theory Spec2Isabelle
  imports Main "HOL-Library.Sublist"
begin

section \<open>Strings\<close>

text \<open>
  An Emacs Lisp string is a sequence of characters, and a character is a code point
  (a natural number): \<open>0xE2\<close> is one character, not two bytes. An eight-bit raw byte
  \<open>b\<close> (written \<^verbatim>\<open>\x80\<close> in a unibyte literal) is the character \<open>0x3FFF00 + b\<close>.
  A JavaScript string is a sequence of UTF-16 code units. Both are lists of naturals here;
  \<open>asc\<close> turns an ASCII literal into such a list.
\<close>

type_synonym estring = "nat list"

definition asc :: "string \<Rightarrow> estring" where
  "asc s = map of_char s"

definition is_digit :: "nat \<Rightarrow> bool" where
  "is_digit c = (48 \<le> c \<and> c \<le> 57)"

definition digit_val :: "nat \<Rightarrow> nat" where
  "digit_val c = c - 48"

text \<open>The value of a run of decimal digits, most significant first.\<close>

fun digits_value :: "nat \<Rightarrow> estring \<Rightarrow> nat" where
  "digits_value acc [] = acc"
| "digits_value acc (c # cs) = digits_value (acc * 10 + digit_val c) cs"

text \<open>The decimal digits of a natural number, as \<^verbatim>\<open>%d\<close> prints them.\<close>

function nat_to_string :: "nat \<Rightarrow> estring" where
  "nat_to_string n = (if n < 10 then [48 + n] else nat_to_string (n div 10) @ [48 + n mod 10])"
  by pat_completeness auto
termination
  by (relation "measure (\<lambda>n. n)") auto

declare nat_to_string.simps [simp del]

definition int_to_string :: "int \<Rightarrow> estring" where
  "int_to_string i = (if i < 0 then 45 # nat_to_string (nat (- i)) else nat_to_string (nat i))"

text \<open>\<^verbatim>\<open>string<\<close>: lexicographic comparison of the character codes.\<close>

fun string_less :: "estring \<Rightarrow> estring \<Rightarrow> bool" where
  "string_less [] [] = False"
| "string_less [] (b # bs) = True"
| "string_less (a # as) [] = False"
| "string_less (a # as) (b # bs) = (if a = b then string_less as bs else a < b)"

section \<open>Emacs Lisp: reading numbers\<close>

text \<open>
  \<^verbatim>\<open>string-to-number\<close> is a primitive of Emacs, not code of the repository. It skips leading
  spaces and tabs, reads an optional sign and the longest numeric prefix, ignores what
  follows, and returns the integer 0 when there is no number: it never signals for a string.
  Integers are unbounded (Emacs 27 and later). A text with float syntax (a dot followed by
  digits, or digits followed by an exponent) is read as an IEEE double; doubles are not
  modelled, so the primitives that touch them are parameters of the model, collected in
  \<open>float_prims\<close>: reading the text, \<^verbatim>\<open>(format "%05d" x)\<close> (\<open>None\<close> when it signals),
  \<^verbatim>\<open>(/= x 0)\<close> and the three mixed forms of \<^verbatim>\<open>(<= x y)\<close>.
\<close>

record 'f float_prims =
  read_float :: "estring \<Rightarrow> 'f"
  format_05d_float :: "'f \<Rightarrow> estring option"
  float_nonzero :: "'f \<Rightarrow> bool"
  int_le_float :: "int \<Rightarrow> 'f \<Rightarrow> bool"
  float_le_int :: "'f \<Rightarrow> int \<Rightarrow> bool"
  float_le_float :: "'f \<Rightarrow> 'f \<Rightarrow> bool"

datatype 'f lisp_number = Fixnum int | Flonum 'f

definition is_blank :: "nat \<Rightarrow> bool" where
  "is_blank c = (c = 32 \<or> c = 9)"

definition is_sign :: "nat \<Rightarrow> bool" where
  "is_sign c = (c = 45 \<or> c = 43)"

text \<open>Is there a well-formed exponent part at the head of the text?\<close>

definition exponent_at :: "estring \<Rightarrow> bool" where
  "exponent_at s =
     (case s of
        [] \<Rightarrow> False
      | e # r \<Rightarrow>
          if e = 101 \<or> e = 69 then
            (case r of
               [] \<Rightarrow> False
             | x # r' \<Rightarrow>
                 if is_digit x then True
                 else if x = 45 then (case r' of [] \<Rightarrow> False | d # _ \<Rightarrow> is_digit d)
                 else if x = 43 then
                   (case r' of [] \<Rightarrow> False
                    | d # _ \<Rightarrow> is_digit d \<or> take 3 r' = asc ''INF'' \<or> take 3 r' = asc ''NaN'')
                 else False)
          else False)"

definition string_to_number :: "('f, 'x) float_prims_scheme \<Rightarrow> estring \<Rightarrow> 'f lisp_number" where
  "string_to_number P s =
     (let p = dropWhile is_blank s;
          negative = (case p of [] \<Rightarrow> False | c # _ \<Rightarrow> c = 45);
          q = (case p of [] \<Rightarrow> [] | c # cs \<Rightarrow> if is_sign c then cs else p);
          lead = takeWhile is_digit q;
          r1 = dropWhile is_digit q;
          dot = (case r1 of [] \<Rightarrow> False | c # _ \<Rightarrow> c = 46);
          r2 = (if dot then tl r1 else r1);
          trail = takeWhile is_digit r2;
          r3 = dropWhile is_digit r2;
          e_exp = exponent_at r3
      in if (dot \<and> trail \<noteq> []) \<or> (lead \<noteq> [] \<and> \<not> dot \<and> e_exp) then Flonum (read_float P p)
         else if lead = [] then Fixnum 0
         else Fixnum (if negative then - int (digits_value 0 lead) else int (digits_value 0 lead)))"

text \<open>
  \<^verbatim>\<open>(format "%05d" n)\<close>: at least five characters, padded with zeros after the sign.
  \<open>None\<close> stands for a signalled error, which only a double can cause.
\<close>

function zero_pad :: "nat \<Rightarrow> estring \<Rightarrow> estring" where
  "zero_pad w ds = (if length ds < w then zero_pad w (48 # ds) else ds)"
  by pat_completeness auto
termination
  by (relation "measure (\<lambda>(w, ds). w - length ds)") auto

declare zero_pad.simps [simp del]

definition format_05d :: "('f, 'x) float_prims_scheme \<Rightarrow> 'f lisp_number \<Rightarrow> estring option" where
  "format_05d P n =
     (case n of
        Fixnum i \<Rightarrow>
          Some (if i < 0 then 45 # zero_pad 4 (nat_to_string (nat (- i)))
                else zero_pad 5 (nat_to_string (nat i)))
      | Flonum f \<Rightarrow> format_05d_float P f)"

section \<open>Annotations and the reading-order sort key\<close>

text \<open>
  An annotation is the \<^verbatim>\<open>data\<close> alist of a decoded JSON record. A field that is missing
  or \<^verbatim>\<open>null\<close> reads as \<^verbatim>\<open>nil\<close>, here \<open>None\<close>. The \<^verbatim>\<open>tags\<close> value is rendered only
  when it is a Lisp list of tag objects; each object may lack its \<^verbatim>\<open>tag\<close> entry.
\<close>

datatype tags_value = Tag_list "estring option list" | Tag_vector "estring option list"

record annotation =
  annotationType :: "estring option"
  key :: "estring option"
  annotationText :: "estring option"
  annotationComment :: "estring option"
  annotationPageLabel :: "estring option"
  annotationSortIndex :: "estring option"
  tags :: tags_value

definition or_default :: "'a option \<Rightarrow> 'a \<Rightarrow> 'a" where
  "or_default v d = (case v of None \<Rightarrow> d | Some x \<Rightarrow> x)"

text \<open>
  \<^verbatim>\<open>zotero--annotation-sort-key\<close>. The handler of \<^verbatim>\<open>condition-case\<close> yields
  \<^verbatim>\<open>"99999"\<close> when the body signals.
\<close>

definition annotation_sort_key :: "('f, 'x) float_prims_scheme \<Rightarrow> annotation \<Rightarrow> estring" where
  "annotation_sort_key P a =
     (let idx = or_default (annotationSortIndex a) []
      in if idx \<noteq> [] then idx
         else (let page = or_default (annotationPageLabel a) (asc ''0'')
               in case format_05d P (string_to_number P page) of
                    Some k \<Rightarrow> k
                  | None \<Rightarrow> asc ''99999''))"

text \<open>
  \<^verbatim>\<open>sort\<close> is a primitive: a stable sort by the given predicate. On the values it is
  insertion into the sorted rest, each element going before the first element that is
  not less than it.
\<close>

fun insert_by :: "('a \<Rightarrow> 'a \<Rightarrow> bool) \<Rightarrow> 'a \<Rightarrow> 'a list \<Rightarrow> 'a list" where
  "insert_by lt x [] = [x]"
| "insert_by lt x (y # ys) = (if lt y x then y # insert_by lt x ys else x # y # ys)"

fun stable_sort :: "('a \<Rightarrow> 'a \<Rightarrow> bool) \<Rightarrow> 'a list \<Rightarrow> 'a list" where
  "stable_sort lt [] = []"
| "stable_sort lt (x # xs) = insert_by lt x (stable_sort lt xs)"

definition sort_pred :: "('f, 'x) float_prims_scheme \<Rightarrow> annotation \<Rightarrow> annotation \<Rightarrow> bool" where
  "sort_pred P a b = string_less (annotation_sort_key P a) (annotation_sort_key P b)"

text \<open>The value \<^verbatim>\<open>zotero-sort-annotations\<close> returns, as a list of annotations.\<close>

definition sorted_annotations :: "('f, 'x) float_prims_scheme \<Rightarrow> annotation list \<Rightarrow> annotation list" where
  "sorted_annotations P anns = stable_sort (sort_pred P) anns"

definition page_only :: "estring \<Rightarrow> annotation" where
  "page_only lbl =
     \<lparr>annotationType = None, key = None, annotationText = None, annotationComment = None,
      annotationPageLabel = Some lbl, annotationSortIndex = None, tags = Tag_list []\<rparr>"

section \<open>Lisp lists in the store\<close>

text \<open>
  \<^verbatim>\<open>sort\<close> is destructive on lists, and \<^verbatim>\<open>zotero-sort-annotations\<close> protects its
  argument with \<^verbatim>\<open>copy-sequence\<close>. Whether the caller's list survives depends on which
  cons cells are written, so lists live in a store of cons cells here. A cell's address is
  its index in the store; allocation appends.
\<close>

datatype lisp_ptr = Lnil | Lcons nat

record 'a cons_cell =
  car :: 'a
  cdr :: lisp_ptr

type_synonym 'a store = "'a cons_cell list"

text \<open>The proper list at \<open>p\<close> occupies exactly the cells \<open>as\<close>, in this order.\<close>

fun list_cells :: "'a store \<Rightarrow> lisp_ptr \<Rightarrow> nat list \<Rightarrow> bool" where
  "list_cells h Lnil as = (as = [])"
| "list_cells h (Lcons a) [] = False"
| "list_cells h (Lcons a) (b # bs) = (a = b \<and> a < length h \<and> list_cells h (cdr (h ! a)) bs)"

definition cars :: "'a store \<Rightarrow> nat list \<Rightarrow> 'a list" where
  "cars h as = map (\<lambda>a. car (h ! a)) as"

text \<open>
  Walking a list to its end. On a circular list the walk does not return, which is the
  value \<open>None\<close>; so is a pointer outside the store.
\<close>

partial_function (option) list_addrs :: "'a store \<Rightarrow> lisp_ptr \<Rightarrow> nat list option" where
  "list_addrs h p =
     (case p of
        Lnil \<Rightarrow> Some []
      | Lcons a \<Rightarrow>
          if a < length h
          then Option.bind (list_addrs h (cdr (h ! a))) (\<lambda>as. Some (a # as))
          else None)"

text \<open>Fresh cells for the elements \<open>xs\<close>, the first at address \<open>base\<close>.\<close>

fun new_cells :: "nat \<Rightarrow> 'a list \<Rightarrow> 'a store" where
  "new_cells base [] = []"
| "new_cells base [x] = [\<lparr>car = x, cdr = Lnil\<rparr>]"
| "new_cells base (x # y # ys) = \<lparr>car = x, cdr = Lcons (Suc base)\<rparr> # new_cells (Suc base) (y # ys)"

definition first_cell :: "nat \<Rightarrow> 'a list \<Rightarrow> lisp_ptr" where
  "first_cell base xs = (if xs = [] then Lnil else Lcons base)"

text \<open>\<^verbatim>\<open>copy-sequence\<close> of a list: a new list of the same elements, in new cells.\<close>

definition copy_sequence :: "'a store \<Rightarrow> lisp_ptr \<Rightarrow> ('a store \<times> lisp_ptr) option" where
  "copy_sequence h p =
     (case list_addrs h p of
        None \<Rightarrow> None
      | Some as \<Rightarrow> Some (h @ new_cells (length h) (cars h as), first_cell (length h) as))"

text \<open>
  \<^verbatim>\<open>sort\<close> on a list (Emacs 29 and later): the elements are sorted stably and written
  back into the cars of the list's own cells, first cell first; the list itself is returned.
\<close>

fun set_cars :: "'a store \<Rightarrow> nat list \<Rightarrow> 'a list \<Rightarrow> 'a store" where
  "set_cars h (b # bs) (v # vs) = set_cars (h[b := (h ! b)\<lparr>car := v\<rparr>]) bs vs"
| "set_cars h bs vs = h"

definition lisp_sort :: "('a \<Rightarrow> 'a \<Rightarrow> bool) \<Rightarrow> 'a store \<Rightarrow> lisp_ptr \<Rightarrow> ('a store \<times> lisp_ptr) option" where
  "lisp_sort lt h q =
     (case list_addrs h q of
        None \<Rightarrow> None
      | Some bs \<Rightarrow> Some (set_cars h bs (stable_sort lt (cars h bs)), q))"

text \<open>\<^verbatim>\<open>zotero-sort-annotations\<close>: \<^verbatim>\<open>(sort (copy-sequence annotations) (lambda (a b) ...))\<close>.\<close>

definition zotero_sort_annotations ::
  "('f, 'x) float_prims_scheme \<Rightarrow> annotation store \<Rightarrow> lisp_ptr \<Rightarrow> (annotation store \<times> lisp_ptr) option" where
  "zotero_sort_annotations P h annotations =
     (case copy_sequence h annotations of
        None \<Rightarrow> None
      | Some (h1, q) \<Rightarrow> lisp_sort (sort_pred P) h1 q)"

section \<open>Chapter resolver\<close>

text \<open>
  A chapter map entry is the list \<^verbatim>\<open>(title page-label level)\<close> decoded from JSON; the page
  label is a string or an integer, the level a natural number (1 is the top). The empty
  list is \<^verbatim>\<open>nil\<close>, no chapter map.
\<close>

datatype position_label = Label_string estring | Label_number int

record chapter_entry =
  title :: estring
  lbl :: position_label
  level :: nat

definition num_nonzero :: "('f, 'x) float_prims_scheme \<Rightarrow> 'f lisp_number \<Rightarrow> bool" where
  "num_nonzero P n = (case n of Fixnum i \<Rightarrow> i \<noteq> 0 | Flonum f \<Rightarrow> float_nonzero P f)"

definition num_le :: "('f, 'x) float_prims_scheme \<Rightarrow> 'f lisp_number \<Rightarrow> 'f lisp_number \<Rightarrow> bool" where
  "num_le P a b =
     (case a of
        Fixnum i \<Rightarrow> (case b of Fixnum j \<Rightarrow> i \<le> j | Flonum g \<Rightarrow> int_le_float P i g)
      | Flonum f \<Rightarrow> (case b of Fixnum j \<Rightarrow> float_le_int P f j | Flonum g \<Rightarrow> float_le_float P f g))"

text \<open>
  The hash table \<^verbatim>\<open>nearest-by-level\<close> maps a level to a title. It is an association list
  with one pair for each key; \<^verbatim>\<open>puthash\<close> overwrites or adds, and the \<^verbatim>\<open>maphash\<close> with
  \<^verbatim>\<open>remhash\<close> drops every key greater than the level just written.
\<close>

type_synonym level_table = "(nat \<times> estring) list"

fun puthash :: "nat \<Rightarrow> estring \<Rightarrow> level_table \<Rightarrow> level_table" where
  "puthash k v [] = [(k, v)]"
| "puthash k v ((k', v') # r) = (if k' = k then (k, v) # r else (k', v') # puthash k v r)"

definition clear_deeper :: "nat \<Rightarrow> level_table \<Rightarrow> level_table" where
  "clear_deeper lv tbl = filter (\<lambda>kv. \<not> (fst kv > lv)) tbl"

definition label_text :: "position_label \<Rightarrow> estring" where
  "label_text l = (case l of Label_string s \<Rightarrow> s | Label_number n \<Rightarrow> int_to_string n)"

definition entry_qualifies :: "('f, 'x) float_prims_scheme \<Rightarrow> 'f lisp_number \<Rightarrow> chapter_entry \<Rightarrow> bool" where
  "entry_qualifies P target e = num_le P (string_to_number P (label_text (lbl e))) target"

definition record_entry ::
  "('f, 'x) float_prims_scheme \<Rightarrow> 'f lisp_number \<Rightarrow> level_table \<Rightarrow> chapter_entry \<Rightarrow> level_table" where
  "record_entry P target tbl e =
     (if entry_qualifies P target e
      then clear_deeper (level e) (puthash (level e) (title e) tbl)
      else tbl)"

definition level_less :: "estring \<times> nat \<Rightarrow> estring \<times> nat \<Rightarrow> bool" where
  "level_less a b = (snd a < snd b)"

definition numeric_chapters ::
  "('f, 'x) float_prims_scheme \<Rightarrow> 'f lisp_number \<Rightarrow> chapter_entry list \<Rightarrow> (estring \<times> nat) list" where
  "numeric_chapters P target chapter_map =
     (let nearest_by_level = foldl (record_entry P target) [] chapter_map;
          result = rev (map (\<lambda>kv. (snd kv, fst kv)) nearest_by_level)
      in stable_sort level_less result)"

definition exact_chapters :: "estring \<Rightarrow> chapter_entry list \<Rightarrow> (estring \<times> nat) list" where
  "exact_chapters page_label chapter_map =
     foldl (\<lambda>found e.
              if (case lbl e of Label_string s \<Rightarrow> s | Label_number n \<Rightarrow> []) = page_label
              then [(title e, level e)] else found)
       [] chapter_map"

text \<open>\<^verbatim>\<open>zotero--get-chapters-for-page\<close>.\<close>

definition get_chapters_for_page ::
  "('f, 'x) float_prims_scheme \<Rightarrow> chapter_entry list \<Rightarrow> estring option \<Rightarrow> (estring \<times> nat) list" where
  "get_chapters_for_page P chapter_map page_label =
     (case page_label of
        None \<Rightarrow> []
      | Some l \<Rightarrow>
          if chapter_map \<noteq> [] \<and> l \<noteq> [] then
            (let target = string_to_number P l
             in if num_nonzero P target then numeric_chapters P target chapter_map
                else exact_chapters l chapter_map)
          else [])"






text \<open>A store holding the list of two annotations, page 20 then page 5, and no doubles.\<close>

definition example_store :: "annotation store" where
  "example_store =
     [\<lparr>car = page_only (asc ''20''), cdr = Lcons 1\<rparr>, \<lparr>car = page_only (asc ''5''), cdr = Lnil\<rparr>]"

definition no_floats :: "unit float_prims" where
  "no_floats =
     \<lparr>read_float = (\<lambda>s. ()), format_05d_float = (\<lambda>f. None), float_nonzero = (\<lambda>f. True),
      int_le_float = (\<lambda>i f. False), float_le_int = (\<lambda>f i. False),
      float_le_float = (\<lambda>f g. False)\<rparr>"

section \<open>Text repair\<close>

text \<open>
  \<^verbatim>\<open>zotero-normalize-text-encoding\<close> runs \<^verbatim>\<open>replace-regexp-in-string\<close> once for each pair
  of its table, in order, with the pattern quoted, and then for three regular expressions.
  Matching goes through \<^verbatim>\<open>string-match\<close> and so obeys \<^verbatim>\<open>case-fold-search\<close>: two
  characters match when the case table in force translates them to the same character. The
  translation is the parameter \<open>tr\<close>; it is the identity when \<^verbatim>\<open>case-fold-search\<close> is
  \<^verbatim>\<open>nil\<close>. The replacement text is inserted as it is (\<^verbatim>\<open>FIXEDCASE\<close> and \<^verbatim>\<open>LITERAL\<close>
  are both \<^verbatim>\<open>t\<close>).
\<close>

definition occurs_at :: "(nat \<Rightarrow> nat) \<Rightarrow> estring \<Rightarrow> estring \<Rightarrow> bool" where
  "occurs_at tr pat s = (map tr (take (length pat) s) = map tr pat)"

text \<open>
  Replacing every match of a quoted pattern, leftmost first, the search resuming after
  each match. No pattern of the table is empty.
\<close>

function replace_literal :: "(nat \<Rightarrow> nat) \<Rightarrow> estring \<Rightarrow> estring \<Rightarrow> estring \<Rightarrow> estring" where
  "replace_literal tr pat rep [] = []"
| "replace_literal tr pat rep (c # cs) =
     (if pat \<noteq> [] \<and> occurs_at tr pat (c # cs)
      then rep @ replace_literal tr pat rep (drop (length pat) (c # cs))
      else c # replace_literal tr pat rep cs)"
  by pat_completeness auto
termination
  by (relation "measure (\<lambda>(tr, pat, rep, s). length s)") (auto simp: neq_Nil_conv)

text \<open>
  The three regular expressions have the shape \<^verbatim>\<open>PRE[^a-zA-Z]*SUF\<close>. A character is in
  the class \<^verbatim>\<open>[a-zA-Z]\<close> when its translation is the translation of a letter. The star is
  greedy and gives characters back one at a time until the suffix matches.
\<close>

definition ascii_letters :: "nat list" where
  "ascii_letters = [97..<123] @ [65..<91]"

definition in_letter_class :: "(nat \<Rightarrow> nat) \<Rightarrow> nat \<Rightarrow> bool" where
  "in_letter_class tr c = (tr c \<in> set (map tr ascii_letters))"

fun gap_then :: "(nat \<Rightarrow> nat) \<Rightarrow> estring \<Rightarrow> estring \<Rightarrow> nat option" where
  "gap_then tr suf [] = (if occurs_at tr suf [] then Some (length suf) else None)"
| "gap_then tr suf (c # cs) =
     (if in_letter_class tr c
      then (if occurs_at tr suf (c # cs) then Some (length suf) else None)
      else (case gap_then tr suf cs of
              Some n \<Rightarrow> Some (Suc n)
            | None \<Rightarrow> if occurs_at tr suf (c # cs) then Some (length suf) else None))"

text \<open>The length of the match that starts at the head of the text, if there is one.\<close>

definition regex_match_at :: "(nat \<Rightarrow> nat) \<Rightarrow> estring \<Rightarrow> estring \<Rightarrow> estring \<Rightarrow> nat option" where
  "regex_match_at tr pre suf s =
     (if occurs_at tr pre s
      then map_option (\<lambda>n. length pre + n) (gap_then tr suf (drop (length pre) s))
      else None)"

function replace_regex :: "(nat \<Rightarrow> nat) \<Rightarrow> estring \<Rightarrow> estring \<Rightarrow> estring \<Rightarrow> estring \<Rightarrow> estring" where
  "replace_regex tr pre suf rep [] = []"
| "replace_regex tr pre suf rep (c # cs) =
     (case regex_match_at tr pre suf (c # cs) of
        Some n \<Rightarrow> rep @ replace_regex tr pre suf rep (drop (max 1 n) (c # cs))
      | None \<Rightarrow> c # replace_regex tr pre suf rep cs)"
  by pat_completeness auto
termination
  by (relation "measure (\<lambda>(tr, pre, suf, rep, s). length s)") (auto simp: max_def)

definition replacements :: "(estring \<times> estring) list" where
  \<open>replacements =
     [
      ([0xE2], asc ''"''),
      ([0xE2], asc ''"''),
      ([0xE2], [0x27]),
      ([0xE2], [0x27]),
      ([0xE2], [0x2014]),
      ([0xE2], [0x2013]),
      ([0xC3, 0xA1], [0xE1]),
      ([0xC3, 0xA9], [0xE9]),
      ([0xC3, 0xAD], [0xED]),
      ([0xC3, 0xB3], [0xF3]),
      ([0xC3, 0xBA], [0xFA]),
      ([0xC3, 0xB1], [0xF1]),
      ([0xC3], [0xC0]),
      ([0xC3, 0xA8], [0xE8]),
      ([0xC3, 0xAC], [0xEC]),
      ([0xC3, 0xB2], [0xF2]),
      ([0xC3, 0xB9], [0xF9]),
      ([0xC3, 0xA4], [0xE4]),
      ([0xC3, 0xAB], [0xEB]),
      ([0xC3, 0xAF], [0xEF]),
      ([0xC3, 0xB6], [0xF6]),
      ([0xC3, 0xBC], [0xFC]),
      ([0xC3, 0xA7], [0xE7]),
      ([0xE2, 0xA2], [0x2022]),
      ([0xE2, 0xA6], [0x2026]),
      ([0xC2, 0xB0], [0xB0]),
      ([0xC2, 0xB1], [0xB1]),
      ([0xC2, 0xB2], [0xB2]),
      ([0xC2, 0xB3], [0xB3]),
      ([0xC2, 0xBD], [0xBD]),
      ([0xC2, 0xBC], [0xBC]),
      ([0xC2, 0xBE], [0xBE]),
      ([0xC2, 0xA9], [0xA9]),
      ([0xC2, 0xAE], [0xAE]),
      ([0xE2, 0xB9], [0x2039]),
      ([0xE2, 0xBA], [0x203A]),
      ([0xC2, 0xAB], [0xAB]),
      ([0xC2, 0xBB], [0xBB]),
      (asc ''pe'' @ [0xC2, 0xBA] @ asc ''ple'', asc ''people''),
      (asc ''pe"'' @ [0xBA] @ asc ''ple'', asc ''people''),
      ([0xC3, 0xA9] @ asc ''lite'', [0xE9] @ asc ''lite''),
      ([0xC3, 0xB1] @ asc ''res'', asc ''fires''),
      (asc ''d'' @ [0xC3, 0xA9] @ asc ''cor'', asc ''d'' @ [0xE9] @ asc ''cor''),
      (asc ''signi'' @ [0xC3, 0xB1] @ asc ''cant'', asc ''significant''),
      (asc ''de'' @ [0xC3, 0xB1] @ asc ''ciencies'', asc ''deficiencies''),
      (asc ''pro'' @ [0xC3, 0xB1] @ asc ''tability'', asc ''profitability''),
      (asc ''contempo'' @ [0xE2] @ asc ''raries'', asc ''contemporaries''),
      (asc ''contempo"raries'', asc ''contemporaries''),
      (asc ''house'' @ [0xE2] @ asc ''hold'', asc ''household''),
      ([0xE2] @ asc ''associationists'' @ [0xE2], asc ''"associationists"''),
      ([0xE2] @ asc ''place"'', asc ''"place"''),
      ([0xE2] @ asc ''purchasing"'', asc ''"purchasing"''),
      ([0xE2] @ asc ''maintain-ing'', asc ''"maintain-ing''),
      ([0xE2] @ asc ''decently'' @ [0xE2], asc ''"decently"''),
      ([0xE2] @ asc ''separate spheres.'' @ [0x27, 0xE2], asc ''"separate spheres.'' @ [0x27] @ asc ''"''),
      (asc ''heart'' @ [0xE2] @ asc '' is'', asc ''heart" is''),
      ([0xE2] @ asc ''dogs'', asc ''"dogs''),
      (asc ''as;9'', asc ''as-''),
      (asc ''as;9 '', asc ''as- ''),
      (asc ''pa5-checks'', asc ''paychecks''),
      (asc ''th%'' @ [0x5C] @ asc ''.'', asc ''they.''),
      (asc ''th% '', asc ''they ''),
      (asc ''th%'', asc ''they''),
      (asc ''undenl'', asc ''under''),
      (asc ''pe'' @ [0xBA] @ asc ''ple'', asc ''people''),
      (asc ''contempo'' @ [0x2014] @ asc ''raries'', asc ''contemporaries''),
      (asc ''contempo"raries'', asc ''contemporaries''),
      (asc ''ex"pected'', asc ''expected''),
      (asc ''house"hold'', asc ''household''),
      (asc ''house"wives'', asc ''housewives''),
      (asc ''single"family'', asc ''single-family''),
      (asc ''well"publicized'', asc ''well-publicized''),
      (asc ''ration-ali'' @ [0x27] @ asc ''ze'', asc ''rationalize''),
      (asc ''car"ried'', asc ''carried''),
      (asc ''in"dustrialization'', asc ''industrialization''),
      (asc ''self"sufficient'', asc ''self-sufficient''),
      (asc ''water"cooled'', asc ''water-cooled''),
      (asc ''home"places'', asc ''home places''),
      (asc ''work"places'', asc ''work places''),
      (asc ''rules"to'', asc ''rules'' @ [0x2014] @ asc ''to''),
      (asc ''ourselves"generate'', asc ''ourselves'' @ [0x2014] @ asc ''generate''),
      (asc ''home"namely'', asc ''home'' @ [0x2014] @ asc ''namely''),
      (asc ''rules"'' @ [0x3FFF80, 0x3FFF94] @ asc ''to'', asc ''rules'' @ [0x2014] @ asc ''to''),
      (asc ''ourselves"'' @ [0x3FFF80, 0x3FFF94] @ asc ''generate'', asc ''ourselves'' @ [0x2014] @ asc ''generate''),
      (asc ''home"'' @ [0x3FFF80, 0x3FFF94] @ asc ''namely'', asc ''home'' @ [0x2014] @ asc ''namely'')
     ]\<close>

definition em_dash :: nat where
  "em_dash = 0x2014"

definition regex_rules :: "(estring \<times> estring \<times> estring) list" where
  \<open>regex_rules =
     [(asc ''rules"'', asc ''to'', asc ''rules'' @ [em_dash] @ asc ''to''),
      (asc ''ourselves"'', asc ''generate'', asc ''ourselves'' @ [em_dash] @ asc ''generate''),
      (asc ''home"'', asc ''namely'', asc ''home'' @ [em_dash] @ asc ''namely'')]\<close>

definition apply_literal :: "(nat \<Rightarrow> nat) \<Rightarrow> estring \<Rightarrow> estring \<times> estring \<Rightarrow> estring" where
  "apply_literal tr text replacement = replace_literal tr (fst replacement) (snd replacement) text"

definition apply_regex :: "(nat \<Rightarrow> nat) \<Rightarrow> estring \<Rightarrow> estring \<times> estring \<times> estring \<Rightarrow> estring" where
  "apply_regex tr text r = replace_regex tr (fst r) (fst (snd r)) (snd (snd r)) text"

text \<open>The repair of a string: the table first, then the regular expressions.\<close>

definition repair :: "(nat \<Rightarrow> nat) \<Rightarrow> estring \<Rightarrow> estring" where
  "repair tr text = foldl (apply_regex tr) (foldl (apply_literal tr) text replacements) regex_rules"

text \<open>\<^verbatim>\<open>zotero-normalize-text-encoding\<close>: \<^verbatim>\<open>nil\<close> is returned as it is.\<close>

definition zotero_normalize_text_encoding :: "(nat \<Rightarrow> nat) \<Rightarrow> estring option \<Rightarrow> estring option" where
  "zotero_normalize_text_encoding tr text = map_option (repair tr) text"

text \<open>Does a pattern match somewhere in the text?\<close>

fun occurs :: "(nat \<Rightarrow> nat) \<Rightarrow> estring \<Rightarrow> estring \<Rightarrow> bool" where
  "occurs tr pat [] = False"
| "occurs tr pat (c # cs) = (occurs_at tr pat (c # cs) \<or> occurs tr pat cs)"

fun regex_occurs :: "(nat \<Rightarrow> nat) \<Rightarrow> estring \<Rightarrow> estring \<Rightarrow> estring \<Rightarrow> bool" where
  "regex_occurs tr pre suf [] = False"
| "regex_occurs tr pre suf (c # cs) =
     (regex_match_at tr pre suf (c # cs) \<noteq> None \<or> regex_occurs tr pre suf cs)"

definition no_literal_match :: "(nat \<Rightarrow> nat) \<Rightarrow> (estring \<times> estring) list \<Rightarrow> estring \<Rightarrow> bool" where
  "no_literal_match tr tbl s = list_all (\<lambda>r. \<not> occurs tr (fst r) s) tbl"

definition no_regex_match :: "(nat \<Rightarrow> nat) \<Rightarrow> estring \<Rightarrow> bool" where
  "no_regex_match tr s = list_all (\<lambda>r. \<not> regex_occurs tr (fst r) (fst (snd r)) s) regex_rules"

definition is_ascii :: "estring \<Rightarrow> bool" where
  "is_ascii s = list_all (\<lambda>c. c < 128) s"

text \<open>The pairs of the table whose pattern is ASCII-only, and the others.\<close>

definition ascii_replacements :: "(estring \<times> estring) list" where
  "ascii_replacements = filter (\<lambda>r. is_ascii (fst r)) replacements"

text \<open>
  The translation keeps a character apart from ASCII: no ASCII character is translated
  to what it is translated to.
\<close>

definition apart_from_ascii :: "(nat \<Rightarrow> nat) \<Rightarrow> nat \<Rightarrow> bool" where
  "apart_from_ascii tr d = (tr d \<notin> tr ` {..<128})"

definition separates_table :: "(nat \<Rightarrow> nat) \<Rightarrow> bool" where
  "separates_table tr =
     list_all (\<lambda>r. is_ascii (fst r) \<or> list_ex (\<lambda>d. apart_from_ascii tr d) (fst r)) replacements"

section \<open>Text repair: overlaps of patterns and replacements\<close>

text \<open>
  What follows in this section is not code of the package: it is what is needed to state
  when a second run of \<^verbatim>\<open>zotero-normalize-text-encoding\<close> finds nothing left to replace.

  A pattern of the table has a lead when it holds \<open>0xE2\<close>, \<open>0xC2\<close> or \<open>0xC3\<close> (the
  characters \<^verbatim>\<open>a-circumflex\<close>, \<^verbatim>\<open>A-circumflex\<close> and \<^verbatim>\<open>A-tilde\<close> that begin a
  mis-decoded sequence). A text is clear of a character when no character of it is
  translated as that character is.
\<close>

definition mojibake_lead :: "nat \<Rightarrow> bool" where
  "mojibake_lead c = (c = 0xE2 \<or> c = 0xC2 \<or> c = 0xC3)"

definition has_lead :: "estring \<Rightarrow> bool" where
  "has_lead pat = list_ex mojibake_lead pat"

definition clear_of :: "(nat \<Rightarrow> nat) \<Rightarrow> nat \<Rightarrow> estring \<Rightarrow> bool" where
  "clear_of tr k s = list_all (\<lambda>c. tr c \<noteq> tr k) s"

definition clear_of_leads :: "(nat \<Rightarrow> nat) \<Rightarrow> estring \<Rightarrow> bool" where
  "clear_of_leads tr s = (clear_of tr 0xE2 s \<and> clear_of tr 0xC3 s)"

text \<open>
  Replacing \<open>pat\<close> by \<open>rep\<close> can bring a pattern \<open>q\<close> into a text only where \<open>q\<close>
  overlaps \<open>rep\<close>. \<open>ends_ok pat rep q\<close>: every non-empty ending of \<open>q\<close> that begins \<open>rep\<close>
  begins \<open>pat\<close> too. \<open>starts_ok pat q rep\<close>: every non-empty ending of \<open>rep\<close> that begins
  \<open>q\<close> ends \<open>pat\<close> too. \<open>keeps pat rep q\<close>: with neither of \<open>q\<close> and \<open>rep\<close> inside the
  other, every overlap of \<open>q\<close> with \<open>rep\<close> is an overlap of \<open>q\<close> with \<open>pat\<close>.
\<close>

fun ends_ok :: "estring \<Rightarrow> estring \<Rightarrow> estring \<Rightarrow> bool" where
  "ends_ok pat rep [] = True"
| "ends_ok pat rep (c # cs) =
     ((prefix (c # cs) rep \<longrightarrow> prefix (c # cs) pat) \<and> ends_ok pat rep cs)"

fun starts_ok :: "estring \<Rightarrow> estring \<Rightarrow> estring \<Rightarrow> bool" where
  "starts_ok pat q [] = True"
| "starts_ok pat q (c # cs) =
     ((prefix (c # cs) q \<longrightarrow> suffix (c # cs) pat) \<and> starts_ok pat q cs)"

definition keeps :: "estring \<Rightarrow> estring \<Rightarrow> estring \<Rightarrow> bool" where
  "keeps pat rep q =
     (\<not> sublist q rep \<and> \<not> sublist rep q \<and> ends_ok pat rep q \<and> starts_ok pat q rep)"

text \<open>
  \<open>never_starts pat rep\<close>: no non-empty ending of \<open>rep\<close> begins \<open>pat\<close>. \<open>own_ok pat rep\<close>:
  the replacement of \<open>pat\<close> by \<open>rep\<close> cannot leave or make a match of \<open>pat\<close> itself.
\<close>

fun never_starts :: "estring \<Rightarrow> estring \<Rightarrow> bool" where
  "never_starts pat [] = True"
| "never_starts pat (c # cs) = (\<not> prefix (c # cs) pat \<and> never_starts pat cs)"

definition own_ok :: "estring \<Rightarrow> estring \<Rightarrow> bool" where
  "own_ok pat rep =
     (pat \<noteq> [] \<and> \<not> sublist pat rep \<and> \<not> sublist rep pat
      \<and> ends_ok pat rep (tl pat) \<and> never_starts pat rep)"

text \<open>
  The check of a part of the table, in its order: each pair without a lead passes
  \<open>own_ok\<close>, and \<open>keeps\<close> for the pattern of every such pair before it.
\<close>

fun chain_ok :: "estring list \<Rightarrow> (estring \<times> estring) list \<Rightarrow> bool" where
  "chain_ok seen [] = True"
| "chain_ok seen (x # rs) =
     (if has_lead (fst x) then chain_ok seen rs
      else own_ok (fst x) (snd x) \<and> list_all (keeps (fst x) (snd x)) seen
           \<and> chain_ok (fst x # seen) rs)"

text \<open>
  The three regular expressions, seen through the translation: a word of lower-case
  letters and a double quote, any characters other than letters, a word. \<open>gapped\<close> says
  that such a match lies in a text, \<open>gapped_at\<close> that one begins it, and \<open>no_start\<close> that
  none begins inside \<open>X\<close> when \<open>Z\<close> follows \<open>X\<close>.
\<close>

definition is_lower :: "nat \<Rightarrow> bool" where
  "is_lower c = (97 \<le> c \<and> c < 123)"

definition gap :: "estring \<Rightarrow> bool" where
  "gap g = list_all (\<lambda>c. \<not> is_lower c) g"

definition word :: "estring \<Rightarrow> bool" where
  "word w = (w \<noteq> [] \<and> list_all is_lower w)"

definition gapped_at :: "estring \<Rightarrow> estring \<Rightarrow> estring \<Rightarrow> bool" where
  "gapped_at pre suf z = (\<exists>g. gap g \<and> prefix (pre @ g @ suf) z)"

definition gapped :: "estring \<Rightarrow> estring \<Rightarrow> estring \<Rightarrow> bool" where
  "gapped pre suf z = (\<exists>g. gap g \<and> sublist (pre @ g @ suf) z)"

definition no_start :: "estring \<Rightarrow> estring \<Rightarrow> estring \<Rightarrow> estring \<Rightarrow> bool" where
  "no_start pre suf X Z = (\<forall>x. x \<noteq> [] \<and> suffix x X \<longrightarrow> \<not> gapped_at pre suf (x @ Z))"

text \<open>Some lower-case letter is followed at once by the character \<open>d\<close>.\<close>

fun letter_then :: "nat \<Rightarrow> estring \<Rightarrow> bool" where
  "letter_then d [] = False"
| "letter_then d [a] = False"
| "letter_then d (a # b # zs) = ((is_lower a \<and> b = d) \<or> letter_then d (b # zs))"

text \<open>
  The check of a regular expression against the patterns without a lead: its prefix is a
  word and the double quote, its replacement is the word, the dash and the suffix, and
  the replacement overlaps each of the patterns only inside the two words.
\<close>

definition live_patterns :: "estring list" where
  "live_patterns = map fst (filter (\<lambda>r. \<not> has_lead (fst r)) replacements)"

definition regex_ok :: "estring list \<Rightarrow> estring \<times> estring \<times> estring \<Rightarrow> bool" where
  "regex_ok live r =
     (let w = butlast (fst r); suf = fst (snd r); rep = snd (snd r) in
        fst r = w @ [0x22] \<and> rep = w @ [0x2014] @ suf \<and> word w \<and> word suf
        \<and> never_starts w suf
        \<and> list_all (\<lambda>q. \<not> sublist q rep \<and> \<not> sublist rep q \<and> ends_ok w rep q
                          \<and> starts_ok suf q rep) live)"

text \<open>
  What is asked of the case table in force. It translates the ASCII letters, of either
  case, to the lower-case ones; it translates \<open>0xC2\<close> as it does \<open>0xE2\<close> (the two cases
  of one letter); it leaves alone the characters of every pattern without a lead, of its
  replacement and of the three regular expressions (lower-case letters, digits,
  punctuation, \<open>0xBA\<close>, the dash and two raw bytes); and it translates no character of a
  replacement as it does \<open>0xE2\<close> or \<open>0xC3\<close>. The standard case table of Emacs, which
  \<^verbatim>\<open>string-match\<close> uses when \<^verbatim>\<open>case-fold-search\<close> has its default value \<^verbatim>\<open>t\<close>, is such a
  table; the identity (\<^verbatim>\<open>case-fold-search\<close> \<^verbatim>\<open>nil\<close>) is not.
\<close>

definition folds_letters :: "(nat \<Rightarrow> nat) \<Rightarrow> bool" where
  "folds_letters tr = (map tr [65..<91] = [97..<123] \<and> map tr [97..<123] = [97..<123])"

definition fixes_rule :: "(nat \<Rightarrow> nat) \<Rightarrow> estring \<times> estring \<Rightarrow> bool" where
  "fixes_rule tr r = (map tr (fst r) = fst r \<and> map tr (snd r) = snd r)"

definition fixes_regex :: "(nat \<Rightarrow> nat) \<Rightarrow> estring \<times> estring \<times> estring \<Rightarrow> bool" where
  "fixes_regex tr r =
     (map tr (fst r) = fst r \<and> map tr (fst (snd r)) = fst (snd r)
      \<and> map tr (snd (snd r)) = snd (snd r))"

definition folds_case :: "(nat \<Rightarrow> nat) \<Rightarrow> bool" where
  "folds_case tr =
     (folds_letters tr \<and> tr 0xC2 = tr 0xE2
      \<and> list_all (\<lambda>r. has_lead (fst r) \<or> fixes_rule tr r) replacements
      \<and> list_all (fixes_regex tr) regex_rules
      \<and> list_all (\<lambda>r. clear_of_leads tr (snd r)) replacements
      \<and> list_all (\<lambda>r. clear_of_leads tr (snd (snd r))) regex_rules)"

text \<open>
  The standard case table on ASCII and Latin-1: the capital letters \<^verbatim>\<open>A\<close> to \<^verbatim>\<open>Z\<close> and
  \<open>0xC0\<close> to \<open>0xDE\<close> (but for the multiplication sign \<open>0xD7\<close>) go to their lower-case
  letters, every other character to itself.
\<close>

definition downcase :: "nat \<Rightarrow> nat" where
  "downcase c =
     (if (65 \<le> c \<and> c \<le> 90) \<or> (0xC0 \<le> c \<and> c \<le> 0xDE \<and> c \<noteq> 0xD7) then c + 32 else c)"

section \<open>Emacs Lisp: rendering one annotation\<close>

fun join :: "estring \<Rightarrow> estring list \<Rightarrow> estring" where
  "join sep [] = []"
| "join sep [x] = x"
| "join sep (x # y # ys) = x @ sep @ join sep (y # ys)"

text \<open>\<^verbatim>\<open>(and x (not (string-empty-p x)))\<close>.\<close>

definition non_empty :: "estring option \<Rightarrow> bool" where
  "non_empty x = (case x of None \<Rightarrow> False | Some s \<Rightarrow> s \<noteq> [])"

text \<open>\<^verbatim>\<open>zotero--is-spine-index\<close>, for a label that is a string.\<close>

definition is_spine_index :: "estring \<Rightarrow> bool" where
  "is_spine_index label = (label \<noteq> [] \<and> list_all is_digit label \<and> 5 \<le> length label)"

text \<open>\<^verbatim>\<open>zotero--build-open-pdf-link\<close>.\<close>

definition build_open_pdf_link :: "estring \<Rightarrow> estring \<Rightarrow> estring \<Rightarrow> estring" where
  "build_open_pdf_link attachment_id page_label annotation_key =
     (let link = asc ''zotero://open-pdf/library/items/'' @ attachment_id;
          params = (if page_label \<noteq> [] then [asc ''page='' @ page_label] else [])
                   @ (if annotation_key \<noteq> [] then [asc ''annotation='' @ annotation_key] else [])
      in if params \<noteq> [] then link @ asc ''?'' @ join (asc ''&'') params else link)"

text \<open>\<^verbatim>\<open>zotero--page-display\<close>; the bar is character 124.\<close>

definition page_display :: "estring \<Rightarrow> estring \<Rightarrow> estring" where
  "page_display page_label sort_index =
     (if page_label \<noteq> [] \<and> \<not> is_spine_index page_label then asc ''p. '' @ page_label
      else if page_label = [] \<and> 124 \<in> set sort_index then asc ''annotation''
      else if page_label = [] then asc ''p. ?''
      else asc ''annotation'')"

text \<open>The names of the tags: only a Lisp list is rendered, and \<^verbatim>\<open>delq\<close> drops the \<^verbatim>\<open>nil\<close>s.\<close>

definition tag_names :: "tags_value \<Rightarrow> estring list" where
  "tag_names tv = (case tv of Tag_list ts \<Rightarrow> List.map_filter (\<lambda>t. t) ts | Tag_vector ts \<Rightarrow> [])"

definition org_tag_lines :: "tags_value \<Rightarrow> estring list" where
  "org_tag_lines tv =
     (if tag_names tv \<noteq> [] then [asc '':'' @ join (asc '':'') (tag_names tv) @ asc '':''] else [])"

definition md_tag_lines :: "tags_value \<Rightarrow> estring list" where
  "md_tag_lines tv =
     (if tag_names tv \<noteq> []
      then [[], asc ''Tags: '' @ join (asc '', '') (map (\<lambda>t. [0x60] @ t @ [0x60]) (tag_names tv))]
      else [])"

definition cite_lines :: "estring option \<Rightarrow> estring \<Rightarrow> estring list" where
  "cite_lines citation_key page_label =
     (case citation_key of
        None \<Rightarrow> []
      | Some ck \<Rightarrow>
          [[], asc ''[cite:@'' @ ck @ asc '', p.''
                 @ (if page_label \<noteq> [] then page_label else asc ''?'') @ asc '']''])"

definition comment_lines :: "estring option \<Rightarrow> estring list" where
  "comment_lines comment = (if non_empty comment then [[], or_default comment []] else [])"

text \<open>\<^verbatim>\<open>zotero--format-single-annotation-org\<close>: the lines of one annotation.\<close>

definition format_single_annotation_org ::
  "(nat \<Rightarrow> nat) \<Rightarrow> annotation \<Rightarrow> estring \<Rightarrow> estring option \<Rightarrow> estring list" where
  "format_single_annotation_org tr a attachment_id citation_key =
     (let ann_type = or_default (annotationType a) (asc ''unknown'');
          ann_key = or_default (key a) [];
          text = zotero_normalize_text_encoding tr (annotationText a);
          comment = zotero_normalize_text_encoding tr (annotationComment a);
          page_label = or_default (annotationPageLabel a) [];
          sort_index = or_default (annotationSortIndex a) [];
          zotero_link = build_open_pdf_link attachment_id page_label ann_key;
          link_line = asc ''[['' @ zotero_link @ asc '']['' @ page_display page_label sort_index
                      @ asc '']]:'';
          lines =
            (if ann_type = asc ''highlight'' \<or> ann_type = asc ''underline'' then
               (if non_empty text
                then [link_line, asc ''#+begin_quote'', or_default text [], asc ''#+end_quote'']
                     @ comment_lines comment @ cite_lines citation_key page_label
                else [])
             else if ann_type = asc ''note'' then
               link_line #
               (if non_empty comment
                then [asc ''#+begin_comment'', or_default comment [], asc ''#+end_comment'']
                else [])
             else if ann_type = asc ''image'' then
               [link_line, asc ''#+begin_example'', asc ''[Image annotation]'', asc ''#+end_example'']
               @ comment_lines comment
             else [])
      in lines @ org_tag_lines (tags a))"

text \<open>\<^verbatim>\<open>zotero--format-single-annotation-md\<close>.\<close>

definition format_single_annotation_md ::
  "(nat \<Rightarrow> nat) \<Rightarrow> annotation \<Rightarrow> estring \<Rightarrow> estring option \<Rightarrow> estring list" where
  "format_single_annotation_md tr a attachment_id citation_key =
     (let ann_type = or_default (annotationType a) (asc ''unknown'');
          ann_key = or_default (key a) [];
          text = zotero_normalize_text_encoding tr (annotationText a);
          comment = zotero_normalize_text_encoding tr (annotationComment a);
          page_label = or_default (annotationPageLabel a) [];
          sort_index = or_default (annotationSortIndex a) [];
          zotero_link = build_open_pdf_link attachment_id page_label ann_key;
          link_line = asc ''['' @ page_display page_label sort_index @ asc '']('' @ zotero_link
                      @ asc ''):'';
          lines =
            (if ann_type = asc ''highlight'' \<or> ann_type = asc ''underline'' then
               (if non_empty text
                then [link_line, [], asc ''> '' @ or_default text []]
                     @ comment_lines comment @ cite_lines citation_key page_label
                else [])
             else if ann_type = asc ''note'' then
               link_line #
               (if non_empty comment then [[], asc ''*'' @ or_default comment [] @ asc ''*''] else [])
             else if ann_type = asc ''image'' then
               [link_line, [], [0x60] @ asc ''[Image annotation]'' @ [0x60]] @ comment_lines comment
             else [])
      in lines @ md_tag_lines (tags a))"

section \<open>Emacs Lisp: assembling the document\<close>

text \<open>
  The argument of the assemblers is the alist that \<^verbatim>\<open>zotero-get-all-annotations-for-item\<close>
  builds: either the error marker alone, or the item with its attachments. The chapter map
  of an attachment comes from an external process; it is the parameter \<open>chapter_map_for\<close>
  (\<open>[]\<close> for \<^verbatim>\<open>nil\<close>).
\<close>

record attachment =
  attachment_title :: "estring option"
  attachment_id :: estring
  filename :: "estring option"
  annotations :: "annotation list"

record annotations_data =
  error_marker :: "estring option"
  item_title :: "estring option"
  item_type :: "estring option"
  item_id :: "estring option"
  attachments :: "attachment list"

text \<open>\<^verbatim>\<open>%s\<close> prints \<^verbatim>\<open>nil\<close> as the three letters.\<close>

definition fmt_s :: "estring option \<Rightarrow> estring" where
  "fmt_s v = or_default v (asc ''nil'')"

text \<open>For an EPUB spine index, the leading digits of the sort index stand for the page.\<close>

definition effective_label :: "estring \<Rightarrow> estring \<Rightarrow> estring" where
  "effective_label page_label sort_index =
     (if is_spine_index page_label \<and> takeWhile is_digit sort_index \<noteq> []
      then takeWhile is_digit sort_index else page_label)"

text \<open>
  One chapter of one annotation against the table \<^verbatim>\<open>current-chapters\<close>: a heading is
  emitted unless this title is the one recorded at its level. The state is the lines so
  far and the table.
\<close>

definition heading_step ::
  "estring \<Rightarrow> nat \<Rightarrow> estring list \<times> level_table \<Rightarrow> estring \<times> nat \<Rightarrow> estring list \<times> level_table" where
  "heading_step chapter_heading_base mark st ch =
     (let title = fst ch; level = snd ch
      in if map_of (snd st) level = Some title then st
         else (fst st @ [chapter_heading_base @ replicate level mark @ asc '' '' @ title, []],
               clear_deeper level (puthash level title (snd st))))"

definition annotation_step ::
  "('f, 'x) float_prims_scheme \<Rightarrow> (annotation \<Rightarrow> estring list) \<Rightarrow> chapter_entry list \<Rightarrow> estring \<Rightarrow> nat \<Rightarrow>
   estring list \<times> level_table \<Rightarrow> annotation \<Rightarrow> estring list \<times> level_table" where
  "annotation_step P render chapter_map chapter_heading_base mark st a =
     (let st1 =
            (if chapter_map \<noteq> [] then
               (let page_label = or_default (annotationPageLabel a) [];
                    sort_index = or_default (annotationSortIndex a) [];
                    chapters = get_chapters_for_page P chapter_map
                                 (Some (effective_label page_label sort_index))
                in foldl (heading_step chapter_heading_base mark) st chapters)
             else st);
          ann_lines = render a
      in if ann_lines \<noteq> [] then (fst st1 @ ann_lines @ [[]], snd st1) else st1)"

definition attachment_lines ::
  "('f, 'x) float_prims_scheme \<Rightarrow> (nat \<Rightarrow> nat) \<Rightarrow> (estring \<Rightarrow> estring \<Rightarrow> chapter_entry list) \<Rightarrow>
   (estring \<Rightarrow> annotation \<Rightarrow> estring list) \<Rightarrow> nat \<Rightarrow> estring \<Rightarrow> bool \<Rightarrow> attachment \<Rightarrow> estring list" where
  "attachment_lines P tr chapter_map_for render mark none_found multi_attachment att =
     (let title = zotero_normalize_text_encoding tr (attachment_title att);
          fname = or_default (filename att) []
      in (if multi_attachment then [[mark, mark] @ asc '' '' @ fmt_s title, []] else [])
         @ (if annotations att = [] then [none_found, []]
            else (let sorted_anns = sorted_annotations P (annotations att);
                      chapter_map = chapter_map_for (attachment_id att) fname;
                      chapter_heading_base = (if multi_attachment then [mark, mark] else [mark])
                  in fst (foldl (annotation_step P (render (attachment_id att)) chapter_map
                                   chapter_heading_base mark)
                           ([], []) sorted_anns))))"

text \<open>\<^verbatim>\<open>zotero-format-as-org-mode\<close>.\<close>

definition zotero_format_as_org_mode ::
  "('f, 'x) float_prims_scheme \<Rightarrow> (nat \<Rightarrow> nat) \<Rightarrow> (estring \<Rightarrow> estring \<Rightarrow> chapter_entry list) \<Rightarrow>
   annotations_data \<Rightarrow> estring option \<Rightarrow> estring" where
  "zotero_format_as_org_mode P tr chapter_map_for data citation_key =
     (case error_marker data of
        Some error_msg \<Rightarrow> asc ''# Error: '' @ error_msg @ [10]
      | None \<Rightarrow>
          (let title = zotero_normalize_text_encoding tr (item_title data);
               multi_attachment = (1 < length (attachments data));
               header =
                 [asc ''* '' @ fmt_s title, asc ''  :PROPERTIES:'',
                  asc ''  :ITEM_TYPE: '' @ fmt_s (item_type data),
                  asc ''  :ZOTERO_KEY: '' @ fmt_s (item_id data)]
                 @ (case citation_key of None \<Rightarrow> [] | Some ck \<Rightarrow> [asc ''  :CUSTOM_ID: '' @ ck])
                 @ [asc ''  :END:'', []];
               body =
                 concat (map (attachment_lines P tr chapter_map_for
                                (\<lambda>aid a. format_single_annotation_org tr a aid citation_key) 42
                                (if multi_attachment then asc ''   No annotations found.''
                                 else asc ''No annotations found.'')
                                multi_attachment)
                           (attachments data))
           in join [10] (header @ body)))"

text \<open>\<^verbatim>\<open>zotero-format-as-markdown\<close>.\<close>

definition zotero_format_as_markdown ::
  "('f, 'x) float_prims_scheme \<Rightarrow> (nat \<Rightarrow> nat) \<Rightarrow> (estring \<Rightarrow> estring \<Rightarrow> chapter_entry list) \<Rightarrow>
   annotations_data \<Rightarrow> estring option \<Rightarrow> estring" where
  "zotero_format_as_markdown P tr chapter_map_for data citation_key =
     (case error_marker data of
        Some error_msg \<Rightarrow> asc ''# Error: '' @ error_msg @ [10]
      | None \<Rightarrow>
          (let title = zotero_normalize_text_encoding tr (item_title data);
               multi_attachment = (1 < length (attachments data));
               header =
                 [asc ''# '' @ fmt_s title, [],
                  asc ''**Item Type:** '' @ fmt_s (item_type data),
                  asc ''**Zotero Key:** '' @ fmt_s (item_id data)]
                 @ (case citation_key of None \<Rightarrow> [] | Some ck \<Rightarrow> [asc ''**Citation Key:** '' @ ck])
                 @ [[]];
               body =
                 concat (map (attachment_lines P tr chapter_map_for
                                (\<lambda>aid a. format_single_annotation_md tr a aid citation_key) 35
                                (asc ''No annotations found.'') multi_attachment)
                           (attachments data))
           in join [10] (header @ body)))"

section \<open>TypeScript: the annotation formatter of the plugin\<close>

text \<open>
  A JavaScript string is a list of UTF-16 code units. \<open>js_whitespace\<close> is the set that
  \<^verbatim>\<open>trim\<close>, \<^verbatim>\<open>parseInt\<close> and the class \<^verbatim>\<open>\s\<close> share: white space and line terminators.
\<close>

definition js_whitespace :: "nat \<Rightarrow> bool" where
  "js_whitespace c =
     (c = 9 \<or> c = 10 \<or> c = 11 \<or> c = 12 \<or> c = 13 \<or> c = 32 \<or> c = 0xA0 \<or> c = 0x1680
      \<or> (0x2000 \<le> c \<and> c \<le> 0x200A) \<or> c = 0x2028 \<or> c = 0x2029 \<or> c = 0x202F \<or> c = 0x205F
      \<or> c = 0x3000 \<or> c = 0xFEFF)"

definition js_trim :: "estring \<Rightarrow> estring" where
  "js_trim s = rev (dropWhile js_whitespace (rev (dropWhile js_whitespace s)))"

text \<open>\<^verbatim>\<open>replace(/\s+/g, "_")\<close>: every maximal run of white space becomes one underscore.\<close>

function underscore_runs :: "estring \<Rightarrow> estring" where
  "underscore_runs [] = []"
| "underscore_runs (c # cs) =
     (if js_whitespace c then 95 # underscore_runs (dropWhile js_whitespace cs)
      else c # underscore_runs cs)"
  by pat_completeness auto
termination
  by (relation "measure length") (auto simp: length_dropWhile_le le_imp_less_Suc)

text \<open>\<^verbatim>\<open>replace(/:/g, "-")\<close>.\<close>

definition colons_to_hyphens :: "estring \<Rightarrow> estring" where
  "colons_to_hyphens s = map (\<lambda>c. if c = 58 then 45 else c) s"

definition tag_token :: "estring \<Rightarrow> estring" where
  "tag_token t = colons_to_hyphens (underscore_runs t)"

text \<open>
  The interface \<^verbatim>\<open>ZoteroAnnotation\<close>, with the fields the formatter reads; \<^verbatim>\<open>getTags()\<close>
  is the list of the tag strings. The type is any string, as the \<^verbatim>\<open>switch\<close> has a default.
\<close>

record zotero_annotation =
  ann_type :: estring
  ann_text :: "estring option"
  ann_comment :: "estring option"
  ann_page_label :: estring
  ann_key :: estring
  ann_tags :: "estring list"

text \<open>\<^verbatim>\<open>AnnotationFormatter.formatTags\<close>.\<close>

definition formatTags :: "zotero_annotation \<Rightarrow> estring" where
  "formatTags annot =
     (if ann_tags annot = [] then []
      else asc '':'' @ join (asc '':'') (map tag_token (ann_tags annot)) @ asc '':'')"

text \<open>
  \<^verbatim>\<open>parseInt\<close> with no radix: leading white space is skipped, a sign is read, the prefix
  \<^verbatim>\<open>0x\<close> selects radix 16, and the longest run of digits is the value; no digit gives
  \<^verbatim>\<open>NaN\<close>. The result is a double; an integer is exact, and prints as plain decimal,
  up to \<open>2^53 - 1\<close>. How a larger one prints is the parameter \<open>su\<close>.
\<close>

datatype js_number = NaN | Num int

definition is_hex_digit :: "nat \<Rightarrow> bool" where
  "is_hex_digit c = (is_digit c \<or> (97 \<le> c \<and> c \<le> 102) \<or> (65 \<le> c \<and> c \<le> 70))"

definition hex_val :: "nat \<Rightarrow> nat" where
  "hex_val c = (if is_digit c then c - 48 else if 97 \<le> c then c - 87 else c - 55)"

fun radix_value :: "nat \<Rightarrow> nat \<Rightarrow> estring \<Rightarrow> nat" where
  "radix_value r acc [] = acc"
| "radix_value r acc (c # cs) = radix_value r (acc * r + hex_val c) cs"

definition parseInt :: "estring \<Rightarrow> js_number" where
  "parseInt s =
     (let s1 = dropWhile js_whitespace s;
          negative = (case s1 of [] \<Rightarrow> False | c # _ \<Rightarrow> c = 45);
          s2 = (case s1 of [] \<Rightarrow> [] | c # cs \<Rightarrow> if c = 45 \<or> c = 43 then cs else s1);
          hex = (take 2 s2 = asc ''0x'' \<or> take 2 s2 = asc ''0X'');
          s3 = (if hex then drop 2 s2 else s2);
          z = takeWhile (if hex then is_hex_digit else is_digit) s3;
          v = int (radix_value (if hex then 16 else 10) 0 z)
      in if z = [] then NaN else Num (if negative then - v else v))"

definition number_to_string :: "(int \<Rightarrow> estring) \<Rightarrow> int \<Rightarrow> estring" where
  "number_to_string su n =
     (if - 9007199254740991 \<le> n \<and> n \<le> 9007199254740991 then int_to_string n else su n)"

text \<open>\<^verbatim>\<open>parseInt(annotation.annotationPageLabel) || 1\<close>: \<^verbatim>\<open>NaN\<close> and 0 are falsy.\<close>

definition page_number :: "estring \<Rightarrow> int" where
  "page_number label = (case parseInt label of NaN \<Rightarrow> 1 | Num n \<Rightarrow> if n = 0 then 1 else n)"

text \<open>\<^verbatim>\<open>generateZoteroOrgLink\<close>.\<close>

definition generateZoteroOrgLink ::
  "(int \<Rightarrow> estring) \<Rightarrow> estring \<Rightarrow> int \<Rightarrow> zotero_annotation \<Rightarrow> estring \<Rightarrow> estring" where
  "generateZoteroOrgLink su attachmentKey libraryID annotation contentType =
     (let annotKey = ann_key annotation;
          libraryPath = (if libraryID = 1 then asc ''library''
                         else asc ''groups/'' @ number_to_string su libraryID)
      in if contentType = asc ''application/epub+zip'' then
           (let location = (if ann_page_label annotation \<noteq> [] then ann_page_label annotation
                            else asc ''Location'');
                url = asc ''zotero://open-epub/'' @ libraryPath @ asc ''/items/'' @ attachmentKey
                      @ asc ''?annotation='' @ annotKey
            in asc ''[['' @ url @ asc '']['' @ location @ asc '']]:'')
         else
           (let page = page_number (ann_page_label annotation);
                url = asc ''zotero://open-pdf/'' @ libraryPath @ asc ''/items/'' @ attachmentKey
                      @ asc ''?page='' @ number_to_string su page @ asc ''&annotation='' @ annotKey
            in asc ''[['' @ url @ asc ''][Page '' @ number_to_string su page @ asc '']]:''))"

text \<open>\<^verbatim>\<open>comment && comment.trim()\<close> guards the comment paragraph.\<close>

definition comment_paragraph :: "estring option \<Rightarrow> estring" where
  "comment_paragraph comment =
     (case comment of
        None \<Rightarrow> []
      | Some c \<Rightarrow> if js_trim c \<noteq> [] then [10] @ js_trim c @ [10] else [])"

definition tags_line :: "estring \<Rightarrow> estring" where
  "tags_line tag_str = (if tag_str \<noteq> [] then tag_str @ [10] else [])"

text \<open>\<^verbatim>\<open>AnnotationFormatter.formatHighlight\<close>.\<close>

definition formatHighlight ::
  "(int \<Rightarrow> estring) \<Rightarrow> zotero_annotation \<Rightarrow> estring \<Rightarrow> int \<Rightarrow> estring \<Rightarrow> estring" where
  "formatHighlight su annot attachmentKey libraryID contentType =
     (let link = generateZoteroOrgLink su attachmentKey libraryID annot contentType;
          text = or_default (ann_text annot) [];
          tags = formatTags annot
      in link @ [10]
         @ asc ''#+begin_quote'' @ [10] @ js_trim text @ [10] @ asc ''#+end_quote'' @ [10]
         @ comment_paragraph (ann_comment annot) @ tags_line tags)"

text \<open>\<^verbatim>\<open>AnnotationFormatter.formatNote\<close>.\<close>

definition formatNote ::
  "(int \<Rightarrow> estring) \<Rightarrow> zotero_annotation \<Rightarrow> estring \<Rightarrow> int \<Rightarrow> estring \<Rightarrow> estring" where
  "formatNote su annot attachmentKey libraryID contentType =
     (let link = generateZoteroOrgLink su attachmentKey libraryID annot contentType;
          comment = or_default (ann_comment annot) [];
          tags = formatTags annot
      in link @ [10]
         @ asc ''#+begin_comment'' @ [10] @ js_trim comment @ [10] @ asc ''#+end_comment'' @ [10]
         @ tags_line tags)"

text \<open>\<^verbatim>\<open>formatImage\<close> and \<^verbatim>\<open>formatInk\<close> differ in the placeholder only.\<close>

definition format_placeholder ::
  "estring \<Rightarrow> (int \<Rightarrow> estring) \<Rightarrow> zotero_annotation \<Rightarrow> estring \<Rightarrow> int \<Rightarrow> estring \<Rightarrow> estring" where
  "format_placeholder kind su annot attachmentKey libraryID contentType =
     (let link = generateZoteroOrgLink su attachmentKey libraryID annot contentType;
          location = ann_page_label annot;
          tags = formatTags annot
      in link @ [10]
         @ asc ''#+begin_example'' @ [10] @ asc ''['' @ kind @ asc '' annotation at '' @ location
         @ asc '']'' @ [10] @ asc ''#+end_example'' @ [10]
         @ comment_paragraph (ann_comment annot) @ tags_line tags)"

definition formatImage ::
  "(int \<Rightarrow> estring) \<Rightarrow> zotero_annotation \<Rightarrow> estring \<Rightarrow> int \<Rightarrow> estring \<Rightarrow> estring" where
  "formatImage = format_placeholder (asc ''Image'')"

definition formatInk ::
  "(int \<Rightarrow> estring) \<Rightarrow> zotero_annotation \<Rightarrow> estring \<Rightarrow> int \<Rightarrow> estring \<Rightarrow> estring" where
  "formatInk = format_placeholder (asc ''Ink/drawing'')"

definition formatGeneric ::
  "(int \<Rightarrow> estring) \<Rightarrow> zotero_annotation \<Rightarrow> estring \<Rightarrow> int \<Rightarrow> estring \<Rightarrow> estring" where
  "formatGeneric su annot attachmentKey libraryID contentType =
     (let link = generateZoteroOrgLink su attachmentKey libraryID annot contentType;
          text = (if non_empty (ann_text annot) then or_default (ann_text annot) []
                  else or_default (ann_comment annot) [])
      in link @ [10] @ js_trim text @ [10])"

text \<open>\<^verbatim>\<open>AnnotationFormatter.format\<close>.\<close>

definition format_annotation ::
  "(int \<Rightarrow> estring) \<Rightarrow> zotero_annotation \<Rightarrow> estring \<Rightarrow> int \<Rightarrow> estring \<Rightarrow> estring" where
  "format_annotation su annotation attachmentKey libraryID contentType =
     (if ann_type annotation = asc ''highlight'' \<or> ann_type annotation = asc ''underline''
      then formatHighlight su annotation attachmentKey libraryID contentType
      else if ann_type annotation = asc ''note''
      then formatNote su annotation attachmentKey libraryID contentType
      else if ann_type annotation = asc ''image''
      then formatImage su annotation attachmentKey libraryID contentType
      else if ann_type annotation = asc ''ink''
      then formatInk su annotation attachmentKey libraryID contentType
      else formatGeneric su annotation attachmentKey libraryID contentType)"

section \<open>Example inputs\<close>

definition org_link_line :: "annotation \<Rightarrow> estring \<Rightarrow> estring" where
  "org_link_line a aid =
     asc ''[[''
     @ build_open_pdf_link aid (or_default (annotationPageLabel a) []) (or_default (key a) [])
     @ asc '']['' @ page_display (or_default (annotationPageLabel a) []) (or_default (annotationSortIndex a) [])
     @ asc '']]:''"

definition md_link_line :: "annotation \<Rightarrow> estring \<Rightarrow> estring" where
  "md_link_line a aid =
     asc ''['' @ page_display (or_default (annotationPageLabel a) []) (or_default (annotationSortIndex a) [])
     @ asc '']('' 
     @ build_open_pdf_link aid (or_default (annotationPageLabel a) []) (or_default (key a) [])
     @ asc ''):''"

definition example_annotation :: "string \<Rightarrow> estring option \<Rightarrow> estring option \<Rightarrow> estring list \<Rightarrow> annotation" where
  "example_annotation ty txt cmt tgs =
     \<lparr>annotationType = Some (asc ty), key = Some (asc ''ANN001''), annotationText = txt,
      annotationComment = cmt, annotationPageLabel = Some (asc ''5''),
      annotationSortIndex = None, tags = Tag_list (map Some tgs)\<rparr>"

definition example_ts_annotation :: "string \<Rightarrow> string \<Rightarrow> zotero_annotation" where
  "example_ts_annotation ty label =
     \<lparr>ann_type = asc ty, ann_text = Some [], ann_comment = Some [], ann_page_label = asc label,
      ann_key = asc ''ANNOT001'', ann_tags = []\<rparr>"

text \<open>The path segment of the library: the personal library has the id 1.\<close>

definition library_path :: "(int \<Rightarrow> estring) \<Rightarrow> int \<Rightarrow> estring" where
  "library_path su libraryID =
     (if libraryID = 1 then asc ''library'' else asc ''groups/'' @ number_to_string su libraryID)"

definition no_unsafe :: "int \<Rightarrow> estring" where
  "no_unsafe n = []"

section \<open>Sort key of an unparseable page label\<close>

lemma asc_simps [simp]: "asc [] = []" "asc (c # cs) = of_char c # asc cs"
  by (simp_all add: asc_def)

text \<open>
  C1. The claim: an annotation without sort index whose page label is not an integer gets
  the key \<^verbatim>\<open>"99999"\<close> and so sorts after the parsed pages. On the code, the page label
  \<^verbatim>\<open>"ix"\<close> reads as the integer 0, nothing signals, the key is \<^verbatim>\<open>"00000"\<close>, and the
  annotation sorts before page 5.
\<close>

theorem sort_key_unparseable_is_zero:
  "annotation_sort_key P (page_only (asc ''ix'')) = asc ''00000''
   \<and> annotation_sort_key P (page_only (asc ''ix'')) \<noteq> asc ''99999''
   \<and> sorted_annotations P [page_only (asc ''5''), page_only (asc ''ix'')]
       = [page_only (asc ''ix''), page_only (asc ''5'')]"
  by (simp add: annotation_sort_key_def page_only_def or_default_def string_to_number_def
      is_blank_def is_sign_def is_digit_def exponent_at_def format_05d_def zero_pad.simps
      nat_to_string.simps sorted_annotations_def sort_pred_def digit_val_def Let_def)

section \<open>The sorter and the caller's list\<close>

lemma list_addrs_of_cells: "list_cells h p as \<Longrightarrow> list_addrs h p = Some as"
proof (induction as arbitrary: p)
  case Nil
  then show ?case by (cases p) (simp_all add: list_addrs.simps)
next
  case (Cons b bs)
  then obtain a where p: "p = Lcons a" by (cases p) simp_all
  with Cons.prems have ab: "a = b" "a < length h" and rest: "list_cells h (cdr (h ! a)) bs"
    by auto
  from Cons.IH [OF rest] ab show ?case
    unfolding p by (subst list_addrs.simps) simp
qed

lemma list_cells_bound: "list_cells h p as \<Longrightarrow> list_all (\<lambda>a. a < length h) as"
  by (induction h p as rule: list_cells.induct) simp_all

lemma list_cells_append: "list_cells h p as \<Longrightarrow> list_cells (h @ ext) p as"
  by (induction h p as rule: list_cells.induct) (simp_all add: nth_append)

lemma cars_append: "list_all (\<lambda>a. a < length h) as \<Longrightarrow> cars (h @ ext) as = cars h as"
  by (induction as) (simp_all add: cars_def nth_append)

lemma length_insert_by [simp]: "length (insert_by lt x ys) = Suc (length ys)"
  by (induction ys) simp_all

lemma length_stable_sort [simp]: "length (stable_sort lt xs) = length xs"
  by (induction xs) simp_all

lemma new_cells_Cons:
  "new_cells base (x # xs) = \<lparr>car = x, cdr = first_cell (Suc base) xs\<rparr> # new_cells (Suc base) xs"
  by (cases xs) (simp_all add: first_cell_def)

lemma length_new_cells [simp]: "length (new_cells base xs) = length xs"
  by (induction xs arbitrary: base) (simp_all add: new_cells_Cons)

lemma new_cells_list:
  "list_cells (h @ new_cells (length h) xs) (first_cell (length h) xs)
     [length h..<length h + length xs]
   \<and> cars (h @ new_cells (length h) xs) [length h..<length h + length xs] = xs"
proof (induction xs arbitrary: h)
  case Nil
  show ?case by (simp add: first_cell_def cars_def)
next
  case (Cons x xs)
  let ?c = "\<lparr>car = x, cdr = first_cell (Suc (length h)) xs\<rparr>"
  have eq: "h @ new_cells (length h) (x # xs) = (h @ [?c]) @ new_cells (length (h @ [?c])) xs"
    by (simp add: new_cells_Cons)
  have ix: "[length h..<length h + length (x # xs)] = length h # [Suc (length h)..<Suc (length h) + length xs]"
    by (subst upt_rec) simp
  from Cons.IH [of "h @ [?c]"]
  have ih: "list_cells ((h @ [?c]) @ new_cells (length (h @ [?c])) xs) (first_cell (Suc (length h)) xs)
              [Suc (length h)..<Suc (length h) + length xs]"
    and ihc: "cars ((h @ [?c]) @ new_cells (length (h @ [?c])) xs)
              [Suc (length h)..<Suc (length h) + length xs] = xs"
    by simp_all
  have at: "((h @ [?c]) @ new_cells (length (h @ [?c])) xs) ! length h = ?c"
    by (simp add: nth_append)
  have "list_cells (h @ new_cells (length h) (x # xs)) (first_cell (length h) (x # xs))
          [length h..<length h + length (x # xs)]"
    unfolding eq ix using ih at by (simp add: first_cell_def)
  moreover have "cars (h @ new_cells (length h) (x # xs)) [length h..<length h + length (x # xs)] = x # xs"
    unfolding eq ix using ihc at by (simp add: cars_def)
  ultimately show ?case by simp
qed

lemma set_cars_new_cells:
  "length ys = length xs \<Longrightarrow>
   set_cars (h @ new_cells (length h) xs) [length h..<length h + length xs] ys
     = h @ new_cells (length h) ys"
proof (induction xs arbitrary: h ys)
  case Nil
  then show ?case by simp
next
  case (Cons x xs)
  then obtain v vs where ys: "ys = v # vs" and len: "length vs = length xs"
    by (cases ys) simp_all
  let ?c = "\<lparr>car = x, cdr = first_cell (Suc (length h)) xs\<rparr>"
  let ?d = "\<lparr>car = v, cdr = first_cell (Suc (length h)) xs\<rparr>"
  have ix: "[length h..<length h + length (x # xs)] = length h # [Suc (length h)..<Suc (length h) + length xs]"
    by (subst upt_rec) simp
  have upd: "(h @ new_cells (length h) (x # xs))[length h :=
               ((h @ new_cells (length h) (x # xs)) ! length h)\<lparr>car := v\<rparr>]
             = (h @ [?d]) @ new_cells (length (h @ [?d])) xs"
    by (simp add: new_cells_Cons list_update_append)
  have fc: "first_cell (Suc (length h)) xs = first_cell (Suc (length h)) vs"
    using len by (auto simp: first_cell_def)
  have "set_cars (h @ new_cells (length h) (x # xs)) [length h..<length h + length (x # xs)] ys
        = set_cars ((h @ [?d]) @ new_cells (length (h @ [?d])) xs)
            [length (h @ [?d])..<length (h @ [?d]) + length xs] vs"
    unfolding ix ys by (simp only: set_cars.simps upd) simp
  also have "\<dots> = (h @ [?d]) @ new_cells (length (h @ [?d])) vs"
    by (rule Cons.IH [OF len])
  also have "\<dots> = h @ new_cells (length h) ys"
    unfolding ys by (simp add: new_cells_Cons fc)
  finally show ?case .
qed

lemma first_cell_length: "length xs = length ys \<Longrightarrow> first_cell n xs = first_cell n ys"
  by (auto simp: first_cell_def)

lemma zotero_sort_annotations_result:
  assumes "list_cells h p as"
  shows "zotero_sort_annotations P h p
         = Some (h @ new_cells (length h) (sorted_annotations P (cars h as)),
                 first_cell (length h) (cars h as))"
proof -
  let ?xs = "cars h as"
  have la: "list_addrs h p = Some as" by (rule list_addrs_of_cells [OF assms])
  have cp: "copy_sequence h p = Some (h @ new_cells (length h) ?xs, first_cell (length h) ?xs)"
    by (simp add: copy_sequence_def la first_cell_def cars_def)
  have nl: "list_cells (h @ new_cells (length h) ?xs) (first_cell (length h) ?xs)
              [length h..<length h + length ?xs]"
    and nc: "cars (h @ new_cells (length h) ?xs) [length h..<length h + length ?xs] = ?xs"
    using new_cells_list [of h ?xs] by simp_all
  have lb: "list_addrs (h @ new_cells (length h) ?xs) (first_cell (length h) ?xs)
            = Some [length h..<length h + length ?xs]"
    by (rule list_addrs_of_cells [OF nl])
  have "lisp_sort (sort_pred P) (h @ new_cells (length h) ?xs) (first_cell (length h) ?xs)
        = Some (h @ new_cells (length h) (stable_sort (sort_pred P) ?xs), first_cell (length h) ?xs)"
    by (simp add: lisp_sort_def lb nc set_cars_new_cells)
  then show ?thesis
    by (simp add: zotero_sort_annotations_def cp sorted_annotations_def)
qed

text \<open>
  C10. The sorter leaves its input unchanged. For a proper list of annotations at \<open>p\<close>,
  occupying the cells \<open>as\<close>, the call returns; every cell that existed before the call is
  the same after it, so the caller's list is still at \<open>p\<close>, in the same cells, with the same
  elements in the same order; and the result is a list in cells that did not exist before,
  holding the elements in sorted order.
\<close>

theorem sort_annotations_keeps_input:
  assumes "list_cells h p as"
  shows "case zotero_sort_annotations P h p of
           None \<Rightarrow> False
         | Some (h', q) \<Rightarrow>
             take (length h) h' = h
             \<and> list_cells h' p as
             \<and> cars h' as = cars h as
             \<and> list_cells h' q [length h..<length h + length as]
             \<and> cars h' [length h..<length h + length as] = sorted_annotations P (cars h as)"
proof -
  let ?ys = "sorted_annotations P (cars h as)"
  let ?h' = "h @ new_cells (length h) ?ys"
  have len: "length ?ys = length as" by (simp add: sorted_annotations_def cars_def)
  have res: "zotero_sort_annotations P h p = Some (?h', first_cell (length h) ?ys)"
    using zotero_sort_annotations_result [OF assms, of P]
      first_cell_length [of "cars h as" ?ys "length h"] len by (simp add: cars_def)
  have keep: "list_cells ?h' p as" by (rule list_cells_append [OF assms])
  have same: "cars ?h' as = cars h as" by (rule cars_append [OF list_cells_bound [OF assms]])
  have fresh: "list_cells ?h' (first_cell (length h) ?ys) [length h..<length h + length as]"
    and vals: "cars ?h' [length h..<length h + length as] = ?ys"
    using new_cells_list [of h ?ys] len by simp_all
  show ?thesis
    unfolding res using keep same fresh vals by simp
qed


theorem sort_annotations_keeps_input_witness:
  "list_cells example_store (Lcons 0) [0, 1]
   \<and> (case zotero_sort_annotations no_floats example_store (Lcons 0) of
         None \<Rightarrow> False
       | Some (h', q) \<Rightarrow>
           take (length example_store) h' = example_store
           \<and> list_cells h' (Lcons 0) [0, 1]
           \<and> cars h' [0, 1] = cars example_store [0, 1]
           \<and> list_cells h' q [length example_store..<length example_store + length [0::nat, 1]]
           \<and> cars h' [length example_store..<length example_store + length [0::nat, 1]]
               = sorted_annotations no_floats (cars example_store [0, 1]))"
proof -
  have h: "list_cells example_store (Lcons 0) [0, 1]"
    by (simp add: example_store_def)
  show ?thesis
    by (rule conjI [OF h sort_annotations_keeps_input [OF h]])
qed

section \<open>Chapter lookup: the nearest heading at each level\<close>


















section \<open>Text repair: fixed points and ASCII input\<close>

lemmas repair_eval =
  repair_def replacements_def regex_rules_def apply_literal_def apply_regex_def occurs_at_def
  regex_match_at_def em_dash_def

lemma replace_literal_absent: "\<not> occurs tr pat s \<Longrightarrow> replace_literal tr pat rep s = s"
  by (induction s) simp_all

lemma replace_regex_absent:
  "\<not> regex_occurs tr pre suf s \<Longrightarrow> replace_regex tr pre suf rep s = s"
  by (induction s) auto

lemma foldl_literal_absent:
  "no_literal_match tr tbl s \<Longrightarrow> foldl (apply_literal tr) s tbl = s"
  by (induction tbl) (simp_all add: no_literal_match_def apply_literal_def replace_literal_absent)

lemma foldl_regex_absent:
  "list_all (\<lambda>r. \<not> regex_occurs tr (fst r) (fst (snd r)) s) rs \<Longrightarrow>
   foldl (apply_regex tr) s rs = s"
  by (induction rs) (simp_all add: apply_regex_def replace_regex_absent)

lemma repair_fixpoint:
  "no_literal_match tr replacements s \<Longrightarrow> no_regex_match tr s \<Longrightarrow> repair tr s = s"
  by (simp add: repair_def foldl_literal_absent foldl_regex_absent no_regex_match_def)

text \<open>A pattern that matches in ASCII text has only characters translated like ASCII ones.\<close>

lemma occurs_at_ascii:
  assumes "is_ascii s" "occurs_at tr pat s" "d \<in> set pat"
  shows "tr d \<in> tr ` {..<128}"
proof -
  have "tr d \<in> set (map tr pat)" using assms(3) by simp
  also have "\<dots> = set (map tr (take (length pat) s))" using assms(2) by (simp add: occurs_at_def)
  also have "\<dots> \<subseteq> tr ` set s" by (auto dest: in_set_takeD)
  also have "\<dots> \<subseteq> tr ` {..<128}" using assms(1) by (auto simp: is_ascii_def list_all_iff)
  finally show ?thesis .
qed

lemma occurs_ascii:
  "is_ascii s \<Longrightarrow> occurs tr pat s \<Longrightarrow> d \<in> set pat \<Longrightarrow> tr d \<in> tr ` {..<128}"
proof (induction s)
  case Nil
  then show ?case by simp
next
  case (Cons c cs)
  then have tail: "is_ascii cs" by (simp add: is_ascii_def)
  from Cons.prems(2) consider "occurs_at tr pat (c # cs)" | "occurs tr pat cs" by auto
  then show ?case
  proof cases
    case 1
    then show ?thesis by (rule occurs_at_ascii [OF Cons.prems(1) _ Cons.prems(3)])
  next
    case 2
    then show ?thesis by (rule Cons.IH [OF tail _ Cons.prems(3)])
  qed
qed

lemma no_literal_match_ascii:
  assumes "is_ascii x" "separates_table tr" "no_literal_match tr ascii_replacements x"
  shows "no_literal_match tr replacements x"
proof -
  have "\<not> occurs tr (fst r) x" if r: "r \<in> set replacements" for r
  proof (cases "is_ascii (fst r)")
    case True
    with r have "r \<in> set ascii_replacements" by (simp add: ascii_replacements_def)
    with assms(3) show ?thesis by (simp add: no_literal_match_def list_all_iff)
  next
    case False
    with r assms(2) obtain d where d: "d \<in> set (fst r)" "apart_from_ascii tr d"
      by (auto simp: separates_table_def list_all_iff list_ex_iff)
    show ?thesis
    proof
      assume "occurs tr (fst r) x"
      from occurs_ascii [OF assms(1) this d(1)] d(2) show False
        by (simp add: apart_from_ascii_def)
    qed
  qed
  then show ?thesis by (simp add: no_literal_match_def list_all_iff)
qed

text \<open>
  C3, as the claim states it: ASCII-only text is returned unchanged. The table has
  ASCII-only patterns; \<^verbatim>\<open>"undenl"\<close> becomes \<^verbatim>\<open>"under"\<close>.
\<close>

theorem repair_changes_ascii:
  "is_ascii (asc ''undenl'')
   \<and> repair (\<lambda>c. c) (asc ''undenl'') = asc ''under''
   \<and> repair (\<lambda>c. c) (asc ''undenl'') \<noteq> asc ''undenl''"
  by (simp add: repair_eval is_ascii_def)

text \<open>
  C3, amended: ASCII-only text is returned unchanged when none of the ASCII-only patterns
  of the table and none of the three regular expressions matches in it. The patterns with
  a character beyond ASCII cannot match, provided the case table in force translates, in
  each of them, some character to no translation of an ASCII character.
\<close>

theorem repair_ascii_unchanged:
  assumes "is_ascii x" "separates_table tr"
    and "no_literal_match tr ascii_replacements x" "no_regex_match tr x"
  shows "repair tr x = x"
  by (rule repair_fixpoint [OF no_literal_match_ascii [OF assms(1-3)] assms(4)])

theorem repair_ascii_unchanged_witness:
  "is_ascii (asc ''This is plain ASCII text.'')
   \<and> separates_table (\<lambda>c. c)
   \<and> no_literal_match (\<lambda>c. c) ascii_replacements (asc ''This is plain ASCII text.'')
   \<and> no_regex_match (\<lambda>c. c) (asc ''This is plain ASCII text.'')
   \<and> repair (\<lambda>c. c) (asc ''This is plain ASCII text.'') = asc ''This is plain ASCII text.''"
proof -
  have h1: "is_ascii (asc ''This is plain ASCII text.'')"
    by (simp add: is_ascii_def)
  have h2: "separates_table (\<lambda>c. c)"
    by (simp add: separates_table_def replacements_def is_ascii_def apart_from_ascii_def)
  have h3: "no_literal_match (\<lambda>c. c) ascii_replacements (asc ''This is plain ASCII text.'')"
    by (simp add: no_literal_match_def ascii_replacements_def replacements_def is_ascii_def
        occurs_at_def)
  have h4: "no_regex_match (\<lambda>c. c) (asc ''This is plain ASCII text.'')"
    by (simp add: no_regex_match_def regex_rules_def occurs_at_def regex_match_at_def)
  from h1 h2 h3 h4 repair_ascii_unchanged [OF h1 h2 h3 h4] show ?thesis by blast
qed


section \<open>Text repair: a second application\<close>

subsection \<open>One match put back\<close>

text \<open>
  If \<open>q\<close> lies in a text around one copy of the replacement \<open>R\<close>, and every overlap of
  \<open>q\<close> with \<open>R\<close> is an overlap with the replaced match \<open>P\<close>, then \<open>q\<close> lay in the text
  before the replacement.
\<close>

lemma swap_back:
  assumes occ: "sublist q (X @ R @ Y)"
    and nqr: "\<not> sublist q R" and nrq: "\<not> sublist R q"
    and pre: "\<And>R1 R2 q1. R = R1 @ R2 \<Longrightarrow> R1 \<noteq> [] \<Longrightarrow> q = q1 @ R1 \<Longrightarrow> prefix R1 P"
    and suf: "\<And>R1 R2 q2. R = R1 @ R2 \<Longrightarrow> R2 \<noteq> [] \<Longrightarrow> q = R2 @ q2 \<Longrightarrow> suffix R2 P"
  shows "sublist q (X @ P @ Y)"
proof -
  from occ consider
      (left) "sublist q X"
    | (right) "sublist q (R @ Y)"
    | (across) q1 q2 where "q = q1 @ q2" "suffix q1 X" "prefix q2 (R @ Y)"
    by (auto simp: sublist_append [of q X])
  then show ?thesis
  proof cases
    case left
    then show ?thesis by (simp add: sublist_append)
  next
    case right
    then consider
        (inR) "sublist q R"
      | (inY) "sublist q Y"
      | (over) q1 q2 where "q = q1 @ q2" "suffix q1 R" "prefix q2 Y"
      by (auto simp: sublist_append [of q R])
    then show ?thesis
    proof cases
      case inR
      with nqr show ?thesis by simp
    next
      case inY
      then show ?thesis by (simp add: sublist_append)
    next
      case over
      show ?thesis
      proof (cases "q1 = []")
        case True
        with over have "sublist q Y" by simp
        then show ?thesis by (simp add: sublist_append)
      next
        case False
        from over(2) obtain R1 where R: "R = R1 @ q1" by (auto simp: suffix_def)
        from suf [OF R False over(1)] obtain P1 where P: "P = P1 @ q1" by (auto simp: suffix_def)
        from over(3) obtain Y2 where Y: "Y = q2 @ Y2" by (auto simp: prefix_def)
        have "X @ P @ Y = (X @ P1) @ q @ Y2" by (simp add: P Y over(1))
        then show ?thesis unfolding sublist_def by blast
      qed
    qed
  next
    case across
    from across(2) obtain X1 where X: "X = X1 @ q1" by (auto simp: suffix_def)
    from across(3) consider
        (short) "prefix q2 R"
      | (long) us where "q2 = R @ us"
      by (auto simp: prefix_append)
    then show ?thesis
    proof cases
      case short
      show ?thesis
      proof (cases "q2 = []")
        case True
        with across have "sublist q X" by simp
        then show ?thesis by (simp add: sublist_append)
      next
        case False
        from short obtain R2 where R: "R = q2 @ R2" by (auto simp: prefix_def)
        from pre [OF R False across(1)] obtain P2 where P: "P = q2 @ P2" by (auto simp: prefix_def)
        have "X @ P @ Y = X1 @ q @ (P2 @ Y)" by (simp add: X P across(1))
        then show ?thesis unfolding sublist_def by blast
      qed
    next
      case long
      with across(1) have "q = q1 @ R @ us" by simp
      then have "sublist R q" unfolding sublist_def by blast
      with nrq show ?thesis by simp
    qed
  qed
qed

lemma prefix_butlast: "prefix a p \<Longrightarrow> length a < length p \<Longrightarrow> prefix a (butlast p)"
  by (auto simp: prefix_def butlast_append)

lemma own_step:
  assumes given: "\<not> sublist p (X @ butlast p)"
    and short: "length T < length p"
    and npr: "\<not> sublist p r" and nrp: "\<not> sublist r p"
    and pre: "\<And>r1 r2 p1. r = r1 @ r2 \<Longrightarrow> r1 \<noteq> [] \<Longrightarrow> p1 \<noteq> [] \<Longrightarrow> p = p1 @ r1 \<Longrightarrow> prefix r1 p"
    and suf: "\<And>r1 r2 p2. r = r1 @ r2 \<Longrightarrow> r2 \<noteq> [] \<Longrightarrow> p = r2 @ p2 \<Longrightarrow> False"
  shows "\<not> sublist p (X @ r @ T)"
proof
  assume occ: "sublist p (X @ r @ T)"
  have nX: "\<not> sublist p X" using given by (auto simp: sublist_append)
  have nT: "\<not> sublist p T" using short by (auto dest: sublist_length_le)
  from occ nX consider
      (right) "sublist p (r @ T)"
    | (across) p1 p2 where "p = p1 @ p2" "suffix p1 X" "prefix p2 (r @ T)"
    by (auto simp: sublist_append [of p X])
  then show False
  proof cases
    case right
    with npr nT obtain p1 p2 where s: "p = p1 @ p2" "suffix p1 r" "prefix p2 T"
      by (auto simp: sublist_append [of p r])
    show False
    proof (cases "p1 = []")
      case True
      with s nT show False by auto
    next
      case False
      from s(2) obtain r1 where "r = r1 @ p1" by (auto simp: suffix_def)
      from suf [OF this False s(1)] show False .
    qed
  next
    case across
    from across(3) consider
        (short) "prefix p2 r"
      | (long) us where "p2 = r @ us"
      by (auto simp: prefix_append)
    then show False
    proof cases
      case short
      show False
      proof (cases "p2 = [] \<or> p1 = []")
        case True
        then show False
        proof
          assume "p2 = []"
          with across nX show False by auto
        next
          assume "p1 = []"
          with across short npr show False by auto
        qed
      next
        case False
        from short obtain r2 where r: "r = p2 @ r2" by (auto simp: prefix_def)
        from False have "p2 \<noteq> []" "p1 \<noteq> []" by simp_all
        from pre [OF r this across(1)] have "prefix p2 p" .
        moreover have "length p2 < length p" using across(1) \<open>p1 \<noteq> []\<close> by simp
        ultimately have "prefix p2 (butlast p)" by (rule prefix_butlast)
        then obtain b where b: "butlast p = p2 @ b" by (auto simp: prefix_def)
        from across(2) obtain X1 where X: "X = X1 @ p1" by (auto simp: suffix_def)
        have "X @ butlast p = X1 @ (p1 @ p2) @ b" by (simp add: X b)
        then have "X @ butlast p = X1 @ p @ b" by (simp only: across(1) [symmetric])
        then have "sublist p (X @ butlast p)" unfolding sublist_def by blast
        with given show False by simp
      qed
    next
      case long
      with across(1) have "p = p1 @ r @ us" by simp
      then have "sublist r p" unfolding sublist_def by blast
      with nrp show False by simp
    qed
  qed
qed

lemma prefix_take_le: "prefix a W \<Longrightarrow> length a \<le> k \<Longrightarrow> prefix a (take k W)"
  by (auto simp: prefix_def)

lemma advance_step:
  assumes given: "\<not> sublist p (X @ take (length p - 1) W)"
    and nohead: "\<not> prefix p W"
  shows "\<not> sublist p (X @ take (length p) W)"
proof
  assume occ: "sublist p (X @ take (length p) W)"
  have nX: "\<not> sublist p X" using given by (auto simp: sublist_append)
  from occ nX consider
      (right) "sublist p (take (length p) W)"
    | (across) p1 p2 where "p = p1 @ p2" "suffix p1 X" "prefix p2 (take (length p) W)"
    by (auto simp: sublist_append [of p X])
  then show False
  proof cases
    case right
    then obtain u v where eq: "take (length p) W = u @ p @ v" by (auto simp: sublist_def)
    then have "length (take (length p) W) = length u + length p + length v" by simp
    moreover have "length (take (length p) W) \<le> length p" by simp
    ultimately have "u = []" "v = []" by simp_all
    with eq have "take (length p) W = p" by simp
    then have "prefix p W" using take_is_prefix [of "length p" W] by simp
    with nohead show False by simp
  next
    case across
    have pW: "prefix p2 W"
      using across(3) take_is_prefix [of "length p" W] by (rule prefix_order.trans)
    show False
    proof (cases "p1 = []")
      case True
      with across pW nohead show False by simp
    next
      case False
      then have l: "length p2 \<le> length p - 1" using across(1) by (cases p1) auto
      from pW l have "prefix p2 (take (length p - 1) W)" by (rule prefix_take_le)
      then obtain b where b: "take (length p - 1) W = p2 @ b" by (auto simp: prefix_def)
      from across(2) obtain X1 where X: "X = X1 @ p1" by (auto simp: suffix_def)
      have "X @ take (length p - 1) W = X1 @ (p1 @ p2) @ b" using b by (simp add: X)
      then have "X @ take (length p - 1) W = X1 @ p @ b" by (simp only: across(1) [symmetric])
      then have "sublist p (X @ take (length p - 1) W)" unfolding sublist_def by blast
      with given show False by simp
    qed
  qed
qed

subsection \<open>A pattern of the table, replaced\<close>

text \<open>
  Matching through the translation is matching of the translated pattern in the
  translated text. A replacement that passes \<open>keeps\<close> for \<open>q\<close> brings no match of \<open>q\<close>
  into a text, and one that passes \<open>own_ok\<close> leaves no match of its own pattern.
\<close>

lemma prefix_take_iff: "prefix a z \<longleftrightarrow> take (length a) z = a"
proof
  assume "prefix a z"
  then show "take (length a) z = a" by (auto simp: prefix_def)
next
  assume "take (length a) z = a"
  then show "prefix a z" using take_is_prefix [of "length a" z] by simp
qed

lemma occurs_at_prefix: "occurs_at tr pat s \<longleftrightarrow> prefix (map tr pat) (map tr s)"
  by (simp add: occurs_at_def prefix_take_iff take_map)

lemma occurs_sublist:
  "pat \<noteq> [] \<Longrightarrow> occurs tr pat s \<longleftrightarrow> sublist (map tr pat) (map tr s)"
  by (induction s) (simp_all add: occurs_at_prefix sublist_Cons_right)

lemma ends_okD:
  "ends_ok pat rep q \<Longrightarrow> q = q1 @ t \<Longrightarrow> t \<noteq> [] \<Longrightarrow> prefix t rep \<Longrightarrow> prefix t pat"
proof (induction q arbitrary: q1)
  case Nil
  then show ?case by simp
next
  case (Cons c cs)
  show ?case
  proof (cases q1)
    case Nil
    with Cons.prems show ?thesis by auto
  next
    case (Cons d ds)
    with Cons.prems have "cs = ds @ t" "ends_ok pat rep cs" by simp_all
    from Cons.IH [OF this(2) this(1) Cons.prems(3,4)] show ?thesis .
  qed
qed

lemma starts_okD:
  "starts_ok pat q rep \<Longrightarrow> rep = r1 @ t \<Longrightarrow> t \<noteq> [] \<Longrightarrow> prefix t q \<Longrightarrow> suffix t pat"
proof (induction rep arbitrary: r1)
  case Nil
  then show ?case by simp
next
  case (Cons c cs)
  show ?case
  proof (cases r1)
    case Nil
    with Cons.prems show ?thesis by auto
  next
    case (Cons d ds)
    with Cons.prems have "cs = ds @ t" "starts_ok pat q cs" by simp_all
    from Cons.IH [OF this(2) this(1) Cons.prems(3,4)] show ?thesis .
  qed
qed

lemma never_startsD:
  "never_starts pat rep \<Longrightarrow> rep = r1 @ t \<Longrightarrow> t \<noteq> [] \<Longrightarrow> prefix t pat \<Longrightarrow> False"
proof (induction rep arbitrary: r1)
  case Nil
  then show ?case by simp
next
  case (Cons c cs)
  show ?case
  proof (cases r1)
    case Nil
    with Cons.prems show ?thesis by auto
  next
    case (Cons d ds)
    with Cons.prems have "cs = ds @ t" "never_starts pat cs" by simp_all
    from Cons.IH [OF this(2) this(1) Cons.prems(3,4)] show ?thesis .
  qed
qed

lemma keeps_swap:
  assumes k: "keeps pat rep q" and occ: "sublist q (X @ rep @ Y)"
  shows "sublist q (X @ pat @ Y)"
proof (rule swap_back [OF occ])
  show "\<not> sublist q rep" "\<not> sublist rep q" using k by (simp_all add: keeps_def)
next
  fix R1 R2 q1
  assume "rep = R1 @ R2" "R1 \<noteq> []" "q = q1 @ R1"
  moreover have "ends_ok pat rep q" using k by (simp add: keeps_def)
  ultimately show "prefix R1 pat" by (auto intro: ends_okD)
next
  fix R1 R2 q2
  assume "rep = R1 @ R2" "R2 \<noteq> []" "q = R2 @ q2"
  moreover have "starts_ok pat q rep" using k by (simp add: keeps_def)
  ultimately show "suffix R2 pat" by (auto intro: starts_okD)
qed

lemma literal_keeps:
  assumes "map tr pat = pat" "map tr rep = rep" "keeps pat rep q"
  shows "sublist q (X @ map tr (replace_literal tr pat rep s)) \<Longrightarrow> sublist q (X @ map tr s)"
  using assms
proof (induction tr pat rep s arbitrary: X rule: replace_literal.induct)
  case (1 tr pat rep)
  then show ?case by simp
next
  case (2 tr pat rep c cs)
  show ?case
  proof (cases "pat \<noteq> [] \<and> occurs_at tr pat (c # cs)")
    case True
    let ?rest = "drop (length pat) (c # cs)"
    from True have m: "map tr (take (length pat) (c # cs)) = pat"
      using "2.prems"(2) by (simp add: occurs_at_def)
    have split: "map tr (c # cs) = pat @ map tr ?rest"
      using m by (metis append_take_drop_id map_append)
    from "2.prems"(1) True
    have "sublist q ((X @ rep) @ map tr (replace_literal tr pat rep ?rest))"
      using "2.prems"(3) by simp
    from "2.IH"(1) [OF True this "2.prems"(2,3,4)]
    have "sublist q (X @ rep @ map tr ?rest)" by simp
    from keeps_swap [OF "2.prems"(4) this] show ?thesis by (simp only: split)
  next
    case False
    with "2.prems"(1)
    have "sublist q ((X @ [tr c]) @ map tr (replace_literal tr pat rep cs))" by simp
    from "2.IH"(2) [OF False this "2.prems"(2,3,4)] show ?thesis by simp
  qed
qed

lemma literal_gone_gen:
  assumes "map tr pat = pat" "map tr rep = rep" "own_ok pat rep"
  shows "\<not> sublist pat (X @ take (length pat - 1) (map tr s)) \<Longrightarrow>
         \<not> sublist pat (X @ map tr (replace_literal tr pat rep s))"
  using assms
proof (induction tr pat rep s arbitrary: X rule: replace_literal.induct)
  case (1 tr pat rep)
  then show ?case by simp
next
  case (2 tr pat rep c cs)
  from "2.prems"(4) have ne: "pat \<noteq> []" by (simp add: own_ok_def)
  show ?case
  proof (cases "pat \<noteq> [] \<and> occurs_at tr pat (c # cs)")
    case True
    let ?rest = "drop (length pat) (c # cs)"
    from True have m: "map tr (take (length pat) (c # cs)) = pat"
      using "2.prems"(2) by (simp add: occurs_at_def)
    have split: "map tr (c # cs) = pat @ map tr ?rest"
      using m by (metis append_take_drop_id map_append)
    have "take (length pat - 1) (map tr (c # cs)) = butlast pat"
      using ne by (simp only: split) (simp add: butlast_conv_take)
    with "2.prems"(1) have given: "\<not> sublist pat (X @ butlast pat)" by simp
    have "\<not> sublist pat (X @ rep @ take (length pat - 1) (map tr ?rest))"
    proof (rule own_step [OF given])
      show "length (take (length pat - 1) (map tr ?rest)) < length pat"
        using ne by (cases pat) (simp_all add: min_def)
      show "\<not> sublist pat rep" "\<not> sublist rep pat"
        using "2.prems"(4) by (simp_all add: own_ok_def)
    next
      fix r1 r2 p1
      assume a: "rep = r1 @ r2" "r1 \<noteq> []" "p1 \<noteq> []" "pat = p1 @ r1"
      from a(3,4) obtain d ds where "p1 = d # ds" "tl pat = ds @ r1" by (cases p1) auto
      moreover have "ends_ok pat rep (tl pat)" using "2.prems"(4) by (simp add: own_ok_def)
      moreover have "prefix r1 rep" using a(1) by simp
      ultimately show "prefix r1 pat" using a(2) by (auto intro: ends_okD)
    next
      fix r1 r2 p2
      assume a: "rep = r1 @ r2" "r2 \<noteq> []" "pat = r2 @ p2"
      moreover have "never_starts pat rep" using "2.prems"(4) by (simp add: own_ok_def)
      moreover have "prefix r2 pat" using a(3) by simp
      ultimately show False by (auto intro: never_startsD)
    qed
    then have "\<not> sublist pat ((X @ rep) @ take (length pat - 1) (map tr ?rest))" by simp
    from "2.IH"(1) [OF True this "2.prems"(2,3,4)] show ?thesis
      using True "2.prems"(3) by simp
  next
    case False
    with ne have "\<not> prefix pat (map tr (c # cs))"
      using "2.prems"(2) by (metis occurs_at_prefix)
    from advance_step [OF "2.prems"(1) this]
    have "\<not> sublist pat ((X @ [tr c]) @ take (length pat - 1) (map tr cs))"
      using ne by (cases pat) simp_all
    from "2.IH"(2) [OF False this "2.prems"(2,3,4)] show ?thesis using False ne by simp
  qed
qed

lemma literal_gone:
  assumes "map tr pat = pat" "map tr rep = rep" "own_ok pat rep"
  shows "\<not> occurs tr pat (replace_literal tr pat rep s)"
proof -
  from assms(3) have ne: "pat \<noteq> []" by (simp add: own_ok_def)
  have lt: "length (take (length pat - 1) (map tr s)) < length pat"
    using ne by (cases pat) (simp_all add: min_def)
  have "\<not> sublist pat (take (length pat - 1) (map tr s))"
  proof
    assume "sublist pat (take (length pat - 1) (map tr s))"
    from sublist_length_le [OF this] lt show False by linarith
  qed
  then have "\<not> sublist pat ([] @ take (length pat - 1) (map tr s))" by simp
  from literal_gone_gen [OF assms this] show ?thesis
    using ne by (simp add: occurs_sublist assms(1))
qed

subsection \<open>The leads and the table\<close>

text \<open>
  The first entry of the table replaces every character translated as \<open>0xE2\<close> is, the
  thirteenth every character translated as \<open>0xC3\<close> is, and no replacement brings one
  back: from the fourteenth entry on, a pattern with a lead matches nowhere.
\<close>

lemma clear_of_drop: "clear_of tr k s \<Longrightarrow> clear_of tr k (drop n s)"
  by (auto simp: clear_of_def list_all_iff dest: in_set_dropD)

lemma clear_kept_literal:
  "clear_of tr k rep \<Longrightarrow> clear_of tr k s \<Longrightarrow> clear_of tr k (replace_literal tr pat rep s)"
proof (induction tr pat rep s rule: replace_literal.induct)
  case (1 tr pat rep)
  then show ?case by simp
next
  case (2 tr pat rep c cs)
  from "2.prems"(2) have "clear_of tr k (drop (length pat) (c # cs))" "clear_of tr k cs"
    by (simp_all add: clear_of_drop) (simp add: clear_of_def)
  with 2 show ?case by (auto simp: clear_of_def)
qed

lemma clear_made_literal:
  "clear_of tr k rep \<Longrightarrow> clear_of tr k (replace_literal tr [k] rep s)"
proof (induction tr "[k]" rep s rule: replace_literal.induct)
  case (1 tr rep)
  then show ?case by (simp add: clear_of_def)
next
  case (2 tr rep c cs)
  then show ?case by (auto simp: clear_of_def occurs_at_def)
qed

lemma clear_kept_regex:
  "clear_of tr k rep \<Longrightarrow> clear_of tr k s \<Longrightarrow> clear_of tr k (replace_regex tr pre suf rep s)"
proof (induction tr pre suf rep s rule: replace_regex.induct)
  case (1 tr pre suf rep)
  then show ?case by simp
next
  case (2 tr pre suf rep c cs)
  from "2.prems"(2) have "\<And>n. clear_of tr k (drop n (c # cs))" "clear_of tr k cs"
    by (simp_all add: clear_of_drop) (simp add: clear_of_def)
  with 2 show ?case by (auto simp: clear_of_def split: option.splits)
qed

lemma clear_kept_table:
  "list_all (\<lambda>r. clear_of tr k (snd r)) rs \<Longrightarrow> clear_of tr k s \<Longrightarrow>
   clear_of tr k (foldl (apply_literal tr) s rs)"
  by (induction rs arbitrary: s) (simp_all add: apply_literal_def clear_kept_literal)

lemma clear_kept_regexes:
  "list_all (\<lambda>r. clear_of tr k (snd (snd r))) rs \<Longrightarrow> clear_of tr k s \<Longrightarrow>
   clear_of tr k (foldl (apply_regex tr) s rs)"
  by (induction rs arbitrary: s) (simp_all add: apply_regex_def clear_kept_regex)

lemma occurs_char:
  assumes "occurs tr pat s" "d \<in> set pat"
  shows "tr d \<in> tr ` set s"
proof -
  from assms(2) have "pat \<noteq> []" by auto
  with assms(1) have "sublist (map tr pat) (map tr s)" by (simp add: occurs_sublist)
  from set_mono_sublist [OF this] assms(2) show ?thesis by auto
qed

lemma lead_absent:
  assumes "has_lead pat" "tr 0xC2 = tr 0xE2" "clear_of_leads tr s"
  shows "\<not> occurs tr pat s"
proof
  assume occ: "occurs tr pat s"
  from assms(1) obtain d where d: "d \<in> set pat" "d = 0xE2 \<or> d = 0xC2 \<or> d = 0xC3"
    by (auto simp: has_lead_def list_ex_iff mojibake_lead_def)
  from occurs_char [OF occ d(1)] obtain c where c: "c \<in> set s" "tr c = tr d" by auto
  from assms(3) c(1) have "tr c \<noteq> tr 0xE2" "tr c \<noteq> tr 0xC3"
    by (auto simp: clear_of_leads_def clear_of_def list_all_iff)
  with c(2) d(2) assms(2) show False by auto
qed

lemma chain_sound:
  assumes "chain_ok seen rs"
    and "list_all (\<lambda>r. has_lead (fst r) \<or> (map tr (fst r) = fst r \<and> map tr (snd r) = snd r)) rs"
    and "tr 0xC2 = tr 0xE2"
    and "list_all (\<lambda>r. clear_of_leads tr (snd r)) rs"
    and "clear_of_leads tr t"
    and "\<forall>q\<in>set seen. q \<noteq> [] \<and> map tr q = q \<and> \<not> occurs tr q t"
  shows "(\<forall>q\<in>set seen. \<not> occurs tr q (foldl (apply_literal tr) t rs))
       \<and> (\<forall>r\<in>set rs. \<not> has_lead (fst r) \<longrightarrow> \<not> occurs tr (fst r) (foldl (apply_literal tr) t rs))"
  using assms
proof (induction rs arbitrary: seen t)
  case Nil
  then show ?case by simp
next
  case (Cons x rs)
  obtain pat rep where x: "x = (pat, rep)" by (cases x)
  let ?t = "replace_literal tr pat rep t"
  show ?case
  proof (cases "has_lead pat")
    case True
    from lead_absent [OF True Cons.prems(3,5)] have same: "?t = t"
      by (rule replace_literal_absent)
    from Cons.prems(1) True have c: "chain_ok seen rs" by (simp add: x)
    from Cons.prems(2,4) have h: 
      "list_all (\<lambda>r. has_lead (fst r) \<or> (map tr (fst r) = fst r \<and> map tr (snd r) = snd r)) rs"
      "list_all (\<lambda>r. clear_of_leads tr (snd r)) rs" by simp_all
    from Cons.IH [OF c h(1) Cons.prems(3) h(2) Cons.prems(5,6)] True show ?thesis
      by (simp add: x apply_literal_def same)
  next
    case False
    from Cons.prems(1) False
    have c: "own_ok pat rep" "list_all (keeps pat rep) seen" "chain_ok (pat # seen) rs"
      by (simp_all add: x)
    from Cons.prems(2) False have fx: "map tr pat = pat" "map tr rep = rep" by (simp_all add: x)
    from Cons.prems(2,4) have h: 
      "list_all (\<lambda>r. has_lead (fst r) \<or> (map tr (fst r) = fst r \<and> map tr (snd r) = snd r)) rs"
      "list_all (\<lambda>r. clear_of_leads tr (snd r)) rs" by simp_all
    from Cons.prems(4,5) have cl: "clear_of_leads tr ?t"
      by (simp add: x clear_of_leads_def clear_kept_literal)
    have own: "\<not> occurs tr pat ?t" by (rule literal_gone [OF fx c(1)])
    have old: "\<not> occurs tr q ?t" if q: "q \<in> set seen" for q
    proof
      assume occ: "occurs tr q ?t"
      from q Cons.prems(6) have qq: "q \<noteq> []" "map tr q = q" "\<not> occurs tr q t" by auto
      from q c(2) have k: "keeps pat rep q" by (simp add: list_all_iff)
      from occ qq(1,2) have "sublist q ([] @ map tr ?t)"
        using occurs_sublist [of q tr ?t] by simp
      from literal_keeps [OF fx k this] have "sublist q (map tr t)" by simp
      with qq show False using occurs_sublist [of q tr t] by simp
    qed
    have ne: "pat \<noteq> []" using c(1) by (simp add: own_ok_def)
    have seen': "\<forall>q\<in>set (pat # seen). q \<noteq> [] \<and> map tr q = q \<and> \<not> occurs tr q ?t"
      using own old ne fx(1) Cons.prems(6) by auto
    from Cons.IH [OF c(3) h(1) Cons.prems(3) h(2) cl seen'] False show ?thesis
      by (simp add: x apply_literal_def)
  qed
qed

subsection \<open>The regular expressions\<close>

text \<open>
  Under a case table that folds the letters, a character is in the class \<^verbatim>\<open>[a-zA-Z]\<close>
  when its translation is a lower-case letter, and a regular expression matches in a text
  when the translated text holds its prefix, characters other than letters, and its
  suffix. The match found at the head of a text has that shape and the length returned.
\<close>

lemma in_letter_class_lower:
  assumes "folds_letters tr"
  shows "in_letter_class tr c = is_lower (tr c)"
proof -
  from assms have a: "map tr [65..<91] = [97..<123]" and b: "map tr [97..<123] = [97..<123]"
    by (simp_all only: folds_letters_def)
  have "set (map tr ascii_letters) = set (map tr [97..<123]) \<union> set (map tr [65..<91])"
    by (simp only: ascii_letters_def map_append set_append)
  also have "\<dots> = {97..<123}" by (simp only: a b Un_absorb set_upt)
  finally show ?thesis by (simp only: in_letter_class_def is_lower_def atLeastLessThan_iff)
qed

lemma gap_then_iff:
  assumes "folds_letters tr" "map tr suf = suf"
  shows "gap_then tr suf t \<noteq> None \<longleftrightarrow> (\<exists>g. gap g \<and> prefix (g @ suf) (map tr t))"
proof (induction t)
  case Nil
  show ?case using assms(2) by (auto simp: occurs_at_prefix gap_def)
next
  case (Cons c cs)
  have at: "occurs_at tr suf (c # cs) = prefix suf (map tr (c # cs))"
    using assms(2) by (simp add: occurs_at_prefix)
  show ?case
  proof (cases "is_lower (tr c)")
    case True
    have "(\<exists>g. gap g \<and> prefix (g @ suf) (map tr (c # cs))) \<longleftrightarrow> prefix suf (map tr (c # cs))"
    proof
      assume "\<exists>g. gap g \<and> prefix (g @ suf) (map tr (c # cs))"
      then obtain g where g: "gap g" "prefix (g @ suf) (map tr (c # cs))" by blast
      show "prefix suf (map tr (c # cs))"
      proof (cases g)
        case Nil
        with g show ?thesis by simp
      next
        case (Cons a as)
        with g True show ?thesis by (auto simp: gap_def)
      qed
    next
      assume "prefix suf (map tr (c # cs))"
      then have "gap [] \<and> prefix ([] @ suf) (map tr (c # cs))" by (simp add: gap_def)
      then show "\<exists>g. gap g \<and> prefix (g @ suf) (map tr (c # cs))" by blast
    qed
    with True at show ?thesis by (simp add: in_letter_class_lower [OF assms(1)])
  next
    case False
    have "(\<exists>g. gap g \<and> prefix (g @ suf) (map tr (c # cs)))
          \<longleftrightarrow> (\<exists>g. gap g \<and> prefix (g @ suf) (map tr cs)) \<or> prefix suf (map tr (c # cs))"
    proof
      assume "\<exists>g. gap g \<and> prefix (g @ suf) (map tr (c # cs))"
      then obtain g where g: "gap g" "prefix (g @ suf) (map tr (c # cs))" by blast
      show "(\<exists>g. gap g \<and> prefix (g @ suf) (map tr cs)) \<or> prefix suf (map tr (c # cs))"
      proof (cases g)
        case Nil
        with g show ?thesis by simp
      next
        case (Cons a as)
        with g have "gap as \<and> prefix (as @ suf) (map tr cs)" by (auto simp: gap_def)
        then show ?thesis by blast
      qed
    next
      assume "(\<exists>g. gap g \<and> prefix (g @ suf) (map tr cs)) \<or> prefix suf (map tr (c # cs))"
      then show "\<exists>g. gap g \<and> prefix (g @ suf) (map tr (c # cs))"
      proof
        assume "\<exists>g. gap g \<and> prefix (g @ suf) (map tr cs)"
        then obtain g where "gap g" "prefix (g @ suf) (map tr cs)" by blast
        with False have "gap (tr c # g) \<and> prefix ((tr c # g) @ suf) (map tr (c # cs))"
          by (simp add: gap_def)
        then show ?thesis by blast
      next
        assume "prefix suf (map tr (c # cs))"
        then have "gap [] \<and> prefix ([] @ suf) (map tr (c # cs))" by (simp add: gap_def)
        then show ?thesis by blast
      qed
    qed
    with False at Cons.IH show ?thesis
      by (auto simp add: in_letter_class_lower [OF assms(1)] split: option.splits)
  qed
qed

lemma gap_then_len:
  assumes "folds_letters tr" "map tr suf = suf"
  shows "gap_then tr suf t = Some k \<Longrightarrow>
         \<exists>g. gap g \<and> prefix (g @ suf) (map tr t) \<and> k = length g + length suf"
proof (induction t arbitrary: k)
  case Nil
  then have "prefix suf []" "k = length suf"
    using assms(2) by (auto simp: occurs_at_prefix split: if_splits)
  then have "gap [] \<and> prefix ([] @ suf) (map tr []) \<and> k = length [] + length suf"
    by (simp add: gap_def)
  then show ?case by blast
next
  case (Cons c cs)
  have at: "occurs_at tr suf (c # cs) = prefix suf (map tr (c # cs))"
    using assms(2) by (simp add: occurs_at_prefix)
  have here: ?case if "prefix suf (map tr (c # cs))" "k = length suf"
  proof -
    from that have "gap [] \<and> prefix ([] @ suf) (map tr (c # cs)) \<and> k = length [] + length suf"
      by (simp add: gap_def)
    then show ?thesis by blast
  qed
  show ?case
  proof (cases "is_lower (tr c)")
    case True
    with Cons.prems at have "prefix suf (map tr (c # cs))" "k = length suf"
      by (auto simp add: in_letter_class_lower [OF assms(1)] split: if_splits)
    then show ?thesis by (rule here)
  next
    case False
    show ?thesis
    proof (cases "gap_then tr suf cs")
      case None
      with False Cons.prems at have "prefix suf (map tr (c # cs))" "k = length suf"
        by (auto simp add: in_letter_class_lower [OF assms(1)] split: if_splits)
      then show ?thesis by (rule here)
    next
      case (Some n)
      with False Cons.prems have k: "k = Suc n"
        by (simp add: in_letter_class_lower [OF assms(1)])
      from Cons.IH [OF Some] obtain g where
        g: "gap g" "prefix (g @ suf) (map tr cs)" "n = length g + length suf" by blast
      with False k
      have "gap (tr c # g) \<and> prefix ((tr c # g) @ suf) (map tr (c # cs))
            \<and> k = length (tr c # g) + length suf"
        by (simp add: gap_def)
      then show ?thesis by blast
    qed
  qed
qed

lemma prefix_drop:
  "prefix (a @ b) z \<longleftrightarrow> prefix a z \<and> prefix b (drop (length a) z)"
  by (auto simp: prefix_def)

lemma regex_match_at_iff:
  assumes "folds_letters tr" "map tr pre = pre" "map tr suf = suf"
  shows "regex_match_at tr pre suf s \<noteq> None \<longleftrightarrow> gapped_at pre suf (map tr s)"
proof -
  have "regex_match_at tr pre suf s \<noteq> None
        \<longleftrightarrow> prefix pre (map tr s) \<and> gap_then tr suf (drop (length pre) s) \<noteq> None"
    using assms(2) by (auto simp: regex_match_at_def occurs_at_prefix)
  also have "\<dots> \<longleftrightarrow> prefix pre (map tr s)
        \<and> (\<exists>g. gap g \<and> prefix (g @ suf) (drop (length pre) (map tr s)))"
    using gap_then_iff [OF assms(1,3), of "drop (length pre) s"] by (simp add: drop_map)
  also have "\<dots> \<longleftrightarrow> gapped_at pre suf (map tr s)"
    by (auto simp: gapped_at_def prefix_drop [of pre])
  finally show ?thesis .
qed

lemma regex_match_at_len:
  assumes "folds_letters tr" "map tr pre = pre" "map tr suf = suf"
    and "regex_match_at tr pre suf s = Some n"
  shows "\<exists>g. gap g \<and> map tr s = pre @ g @ suf @ map tr (drop n s)
             \<and> n = length pre + length g + length suf"
proof -
  from assms(4) obtain k where
    k: "prefix pre (map tr s)" "gap_then tr suf (drop (length pre) s) = Some k"
       "n = length pre + k"
    using assms(2) by (auto simp: regex_match_at_def occurs_at_prefix split: if_splits)
  from gap_then_len [OF assms(1,3) k(2)] obtain g where
    g: "gap g" "prefix (g @ suf) (map tr (drop (length pre) s))" "k = length g + length suf"
    by blast
  from k(1) g(2) have "prefix (pre @ g @ suf) (map tr s)"
    by (simp add: prefix_drop [of pre] drop_map)
  then obtain w where w: "map tr s = (pre @ g @ suf) @ w" by (auto simp: prefix_def)
  have "drop n (map tr s) = w" by (simp add: w k(3) g(3))
  then have "map tr (drop n s) = w" by (simp add: drop_map)
  with w g k(3) have "gap g \<and> map tr s = pre @ g @ suf @ map tr (drop n s)
             \<and> n = length pre + length g + length suf" by simp
  then show ?thesis by blast
qed

lemma gapped_Cons:
  "gapped pre suf (c # z) \<longleftrightarrow> gapped_at pre suf (c # z) \<or> gapped pre suf z"
  by (auto simp: gapped_def gapped_at_def sublist_Cons_right)

lemma regex_occurs_iff:
  assumes "folds_letters tr" "map tr pre = pre" "map tr suf = suf" "pre \<noteq> []"
  shows "regex_occurs tr pre suf s \<longleftrightarrow> gapped pre suf (map tr s)"
proof (induction s)
  case Nil
  show ?case using assms(4) by (simp add: gapped_def)
next
  case (Cons c cs)
  have "gapped pre suf (map tr (c # cs))
        \<longleftrightarrow> gapped_at pre suf (map tr (c # cs)) \<or> gapped pre suf (map tr cs)"
    by (simp add: gapped_Cons)
  with Cons regex_match_at_iff [OF assms(1-3), of "c # cs"] show ?case by simp
qed

lemma letter_then_append:
  "letter_then d (xs @ ys) \<longleftrightarrow>
     letter_then d xs \<or> letter_then d ys
     \<or> (xs \<noteq> [] \<and> ys \<noteq> [] \<and> is_lower (last xs) \<and> hd ys = d)"
proof (induction d xs rule: letter_then.induct)
  case (1 d)
  then show ?case by simp
next
  case (2 d a)
  then show ?case by (cases ys) auto
next
  case (3 d a b zs)
  then show ?case by simp
qed

lemma letter_then_sublist: "sublist a b \<Longrightarrow> letter_then d a \<Longrightarrow> letter_then d b"
  by (auto simp: sublist_def letter_then_append)

lemma letter_then_member: "letter_then d z \<Longrightarrow> d \<in> set z"
  by (induction d z rule: letter_then.induct) auto

lemma letter_then_letter: "letter_then d z \<Longrightarrow> \<exists>c\<in>set z. is_lower c"
  by (induction d z rule: letter_then.induct) auto

lemma word_clean: "list_all is_lower w \<Longrightarrow> \<not> is_lower d \<Longrightarrow> \<not> letter_then d w"
  by (auto dest: letter_then_member simp: list_all_iff)

lemma gap_clean: "gap g \<Longrightarrow> \<not> letter_then d g"
  by (auto dest: letter_then_letter simp: gap_def list_all_iff)

lemma match_clean:
  assumes "word w" "list_all is_lower s" "gap g" "\<not> is_lower qc" "\<not> is_lower d" "d \<noteq> qc"
  shows "\<not> letter_then d (w @ [qc] @ g @ s)"
proof -
  have "g \<noteq> [] \<Longrightarrow> \<not> is_lower (last g)" using assms(3) by (auto simp: gap_def list_all_iff)
  then have 1: "\<not> letter_then d (g @ s)"
    using word_clean [OF assms(2,5)] gap_clean [OF assms(3)]
    by (auto simp: letter_then_append)
  have 2: "\<not> letter_then d ([qc] @ (g @ s))"
    using 1 assms(4) by (subst letter_then_append) simp
  have "\<not> letter_then d w" using assms(1,5) by (simp add: word_def word_clean)
  then show ?thesis
    using 2 assms(6) by (subst letter_then_append) simp
qed

lemma split_dirty:
  assumes "word w"
  shows "letter_then d (w @ d # s)"
  using assms by (auto simp: letter_then_append word_def list_all_iff)

text \<open>
  Where the replacement of a regular expression (a word, the dash, a word) and a match of
  one (a word, the double quote, characters other than letters, a word) can overlap: only
  inside the two words of the replacement, since in a match no letter is followed by the
  dash.
\<close>

lemma head_in_word:
  assumes w2: "word w2" and q: "word w1" "list_all is_lower s1" "gap g"
    and ch: "\<not> is_lower qc" "\<not> is_lower d" "d \<noteq> qc"
    and that: "w2 @ [d] @ s2 = R1 @ R2" "w1 @ [qc] @ g @ s1 = q1 @ R1"
  shows "prefix R1 w2"
proof -
  let ?q = "w1 @ [qc] @ g @ s1"
  have clean: "\<not> letter_then d ?q" by (rule match_clean [OF q ch])
  from that(1) consider us where "w2 = R1 @ us" | us where "R1 = w2 @ d # us"
    by (auto simp: append_eq_append_conv2 Cons_eq_append_conv)
  then show ?thesis
  proof cases
    case 1
    then show ?thesis by simp
  next
    case 2
    then have "letter_then d R1" using split_dirty [OF w2(1)] by simp
    moreover have "sublist R1 ?q" unfolding that(2) by simp
    ultimately show ?thesis using clean by (auto dest: letter_then_sublist)
  qed
qed

lemma tail_in_word:
  assumes w2: "word w2" and q: "word w1" "list_all is_lower s1" "gap g"
    and ch: "\<not> is_lower qc" "\<not> is_lower d" "d \<noteq> qc"
    and that: "w2 @ [d] @ s2 = R1 @ R2" "w1 @ [qc] @ g @ s1 = R2 @ q2"
  shows "suffix R2 s2"
proof -
  let ?q = "w1 @ [qc] @ g @ s1"
  have clean: "\<not> letter_then d ?q" by (rule match_clean [OF q ch])
  from that(1) consider us where "s2 = us @ R2" | "R2 = d # s2"
    | us vs where "R2 = us @ d # s2" "us \<noteq> []" "w2 = vs @ us"
    by (auto simp: append_eq_append_conv2 Cons_eq_append_conv append_eq_Cons_conv)
  then show ?thesis
  proof cases
    case 1
    then show ?thesis by (simp add: suffix_def)
  next
    case 2
    with that(2) q(1) have "is_lower d" by (cases w1) (auto simp: word_def)
    with ch show ?thesis by simp
  next
    case 3
    then have "word us" using w2(1) by (auto simp: word_def)
    then have "letter_then d R2" unfolding 3(1) by (rule split_dirty)
    moreover have "sublist R2 ?q" unfolding that(2) by simp
    ultimately show ?thesis using clean by (auto dest: letter_then_sublist)
  qed
qed

lemma match_not_in_split:
  assumes "word w2" "word s2" "\<not> is_lower qc" "d \<noteq> qc"
  shows "\<not> sublist (w1 @ [qc] @ g @ s1) (w2 @ [d] @ s2)"
proof -
  have "qc \<notin> set (w2 @ [d] @ s2)"
    using assms by (auto simp: word_def list_all_iff)
  then show ?thesis by (auto dest: set_mono_sublist)
qed

lemma split_not_in_match:
  assumes w2: "word w2" and q: "word w1" "list_all is_lower s1" "gap g"
    and ch: "\<not> is_lower qc" "\<not> is_lower d" "d \<noteq> qc"
  shows "\<not> sublist (w2 @ [d] @ s2) (w1 @ [qc] @ g @ s1)"
proof -
  have "\<not> letter_then d (w1 @ [qc] @ g @ s1)" by (rule match_clean [OF q ch])
  moreover have "letter_then d (w2 @ [d] @ s2)" using split_dirty [OF w2(1)] by simp
  ultimately show ?thesis by (auto dest: letter_then_sublist)
qed

text \<open>One replaced match put back: a match of another expression is still there.\<close>

lemma gapped_swap:
  assumes w2: "word w2" "word s2" and q: "word w1" "list_all is_lower s1" "gap g"
    and ch: "\<not> is_lower qc" "\<not> is_lower d" "d \<noteq> qc"
    and occ: "sublist (w1 @ [qc] @ g @ s1) (X @ (w2 @ [d] @ s2) @ Y)"
  shows "sublist (w1 @ [qc] @ g @ s1) (X @ (w2 @ m @ s2) @ Y)"
proof (rule swap_back [OF occ])
  show "\<not> sublist (w1 @ [qc] @ g @ s1) (w2 @ [d] @ s2)"
    by (rule match_not_in_split [OF w2 ch(1,3)])
  show "\<not> sublist (w2 @ [d] @ s2) (w1 @ [qc] @ g @ s1)"
    by (rule split_not_in_match [OF w2(1) q ch])
  show "prefix R1 (w2 @ m @ s2)"
    if "w2 @ [d] @ s2 = R1 @ R2" "R1 \<noteq> []" "w1 @ [qc] @ g @ s1 = q1 @ R1" for R1 R2 q1
    using head_in_word [OF w2(1) q ch that(1,3)] by simp
  show "suffix R2 (w2 @ m @ s2)"
    if "w2 @ [d] @ s2 = R1 @ R2" "R2 \<noteq> []" "w1 @ [qc] @ g @ s1 = R2 @ q2" for R1 R2 q2
    using tail_in_word [OF w2(1) q ch that(1,3)] by (auto simp: suffix_def)
qed

lemma no_startD: "no_start pre suf X Z \<Longrightarrow> x \<noteq> [] \<Longrightarrow> suffix x X \<Longrightarrow> \<not> gapped_at pre suf (x @ Z)"
  unfolding no_start_def by blast

lemma gapped_atI: "gap g \<Longrightarrow> prefix (pre @ g @ suf) z \<Longrightarrow> gapped_at pre suf z"
  unfolding gapped_at_def by blast

lemma no_start_end:
  assumes "pre \<noteq> []" "no_start pre suf X []"
  shows "\<not> gapped pre suf X"
proof
  assume "gapped pre suf X"
  then obtain g u v where g: "gap g" "X = u @ (pre @ g @ suf) @ v"
    unfolding gapped_def sublist_def by blast
  let ?x = "(pre @ g @ suf) @ v"
  have 1: "?x \<noteq> []" using assms(1) by simp
  have 2: "suffix ?x X" unfolding g(2) by (rule suffixI) simp
  have "prefix (pre @ g @ suf) (?x @ [])" by simp
  from gapped_atI [OF g(1) this] no_startD [OF assms(2) 1 2] show False by simp
qed

lemma no_start_advance:
  assumes "no_start pre suf X (c # Z)" "\<not> gapped_at pre suf (c # Z)"
  shows "no_start pre suf (X @ [c]) Z"
  unfolding no_start_def
proof (intro allI impI notI, elim conjE)
  fix x
  assume x: "x \<noteq> []" "suffix x (X @ [c])" "gapped_at pre suf (x @ Z)"
  from x(2) have "x = [] \<or> (\<exists>zs. x = zs @ [c] \<and> suffix zs X)" by (simp only: suffix_snoc)
  with x(1) obtain y where y: "x = y @ [c]" "suffix y X" by blast
  show False
  proof (cases "y = []")
    case True
    with y x(3) assms(2) show False by simp
  next
    case False
    from no_startD [OF assms(1) False y(2)] x(3) y(1) show False by simp
  qed
qed

lemma no_start_replaced:
  assumes w: "word w" "word s" and ch: "\<not> is_lower qc" "\<not> is_lower d" "d \<noteq> qc"
    and ns: "never_starts w s" and g0: "gap g0"
    and given: "no_start (w @ [qc]) s X ((w @ [qc] @ g0 @ s) @ Z)"
  shows "no_start (w @ [qc]) s (X @ (w @ [d] @ s)) Z"
  unfolding no_start_def
proof (intro allI impI notI, elim conjE)
  fix x
  assume x: "x \<noteq> []" "suffix x (X @ (w @ [d] @ s))" "gapped_at (w @ [qc]) s (x @ Z)"
  from x(3) obtain g where g: "gap g" "prefix ((w @ [qc]) @ g @ s) (x @ Z)"
    by (auto simp: gapped_at_def)
  let ?q = "w @ [qc] @ g @ s"
  let ?rep = "w @ [d] @ s"
  let ?P = "w @ [qc] @ g0 @ s"
  have lows: "list_all is_lower s" using w(2) by (simp add: word_def)
  from g(2) have pq: "prefix ?q (x @ Z)" by simp
  have inrep: False if sx: "suffix x ?rep"
  proof -
    from pq consider "prefix ?q x" | us where "?q = x @ us"
      by (auto simp: prefix_append)
    then show False
    proof cases
      case 1
      then have "sublist ?q x" by (rule prefix_imp_sublist)
      moreover from sx have "sublist x ?rep" by (rule suffix_imp_sublist)
      ultimately have "sublist ?q ?rep" by (rule sublist_order.order_trans)
      with match_not_in_split [OF w ch(1,3)] show False by simp
    next
      case 2
      from sx obtain R1 where R: "?rep = R1 @ x" by (auto simp: suffix_def)
      from tail_in_word [OF w(1) w(1) lows g(1) ch R 2] have xs: "suffix x s" .
      then have lx: "list_all is_lower x"
        using lows by (auto simp: suffix_def)
      from 2 have "prefix x (w @ qc # g @ s)" by (simp add: prefix_def)
      then have "prefix x w"
        using lx ch(1) by (auto simp: prefix_append prefix_Cons)
      moreover from xs obtain r1 where "s = r1 @ x" by (auto simp: suffix_def)
      ultimately show False using never_startsD [OF ns _ x(1)] by blast
    qed
  qed
  from x(2) consider "suffix x ?rep" | y where "x = y @ ?rep" "suffix y X" "y \<noteq> []"
    by (auto simp: suffix_append)
  then show False
  proof cases
    case 1
    then show False by (rule inrep)
  next
    case 2
    have bad: False if "prefix ?q (y @ ?P @ Z)"
    proof -
      from that have "prefix ((w @ [qc]) @ g @ s) (y @ ?P @ Z)" by simp
      from gapped_atI [OF g(1) this] have "gapped_at (w @ [qc]) s (y @ ?P @ Z)" .
      moreover from no_startD [OF given 2(3,2)] have "\<not> gapped_at (w @ [qc]) s (y @ ?P @ Z)"
        by simp
      ultimately show False by simp
    qed
    from pq 2(1) have "prefix ?q (y @ ?rep @ Z)" by simp
    with prefix_append [of ?q y "?rep @ Z"]
    have pa: "prefix ?q y \<or> (\<exists>us. ?q = y @ us \<and> prefix us (?rep @ Z))" by blast
    show False
    proof (cases "prefix ?q y")
      case True
      then have "prefix ?q (y @ ?P @ Z)" by (rule prefix_prefix)
      then show False by (rule bad)
    next
      case False
      with pa obtain us where us: "?q = y @ us" "prefix us (?rep @ Z)" by blast
      have ne: "us \<noteq> []"
      proof
        assume "us = []"
        with us(1) have "prefix ?q y" by simp
        with False show False ..
      qed
      from us(2) prefix_append [of us ?rep Z]
      have "prefix us ?rep \<or> (\<exists>vs. us = ?rep @ vs \<and> prefix vs Z)" by blast
      then show False
      proof (elim disjE exE conjE)
        assume "prefix us ?rep"
        then obtain R2 where R: "?rep = us @ R2" by (auto simp: prefix_def)
        from head_in_word [OF w(1) w(1) lows g(1) ch R us(1)] have "prefix us w" .
        then have "prefix us (?P @ Z)" by (auto simp: prefix_def)
        then have "prefix (y @ us) (y @ ?P @ Z)" by simp
        then have "prefix ?q (y @ ?P @ Z)" by (simp only: us(1))
        then show False by (rule bad)
      next
        fix vs
        assume "us = ?rep @ vs"
        with us(1) have "?q = y @ ?rep @ vs" by simp
        then have "sublist ?rep ?q" unfolding sublist_def by blast
        with split_not_in_match [OF w(1) w(1) lows g(1) ch] show False by simp
      qed
    qed
  qed
qed

lemma regex_step_back:
  assumes fl: "folds_letters tr"
    and fx: "map tr pre = pre" "map tr suf = suf" "map tr rep = rep" and ne: "pre \<noteq> []"
    and swap: "\<And>g0 X Y. gap g0 \<Longrightarrow> sublist q (X @ rep @ Y) \<Longrightarrow> sublist q (X @ (pre @ g0 @ suf) @ Y)"
  shows "sublist q (X @ map tr (replace_regex tr pre suf rep s)) \<Longrightarrow> sublist q (X @ map tr s)"
proof (induction "length s" arbitrary: s X rule: less_induct)
  case less
  show ?case
  proof (cases s)
    case Nil
    with less.prems show ?thesis by simp
  next
    case (Cons c cs)
    show ?thesis
    proof (cases "regex_match_at tr pre suf (c # cs)")
      case None
      with less.prems Cons
      have "sublist q ((X @ [tr c]) @ map tr (replace_regex tr pre suf rep cs))" by simp
      from less.hyps [OF _ this] Cons show ?thesis by simp
    next
      case (Some n)
      from regex_match_at_len [OF fl fx(1,2) Some] obtain g0 where
        g0: "gap g0" "map tr (c # cs) = pre @ g0 @ suf @ map tr (drop n (c # cs))"
            "n = length pre + length g0 + length suf" by blast
      from g0(3) ne have n: "max 1 n = n" by (cases pre) simp_all
      let ?rest = "drop n (c # cs)"
      have shorter: "length ?rest < length s" using n Cons by (simp add: max_def split: if_splits)
      from less.prems Cons Some n
      have "sublist q ((X @ rep) @ map tr (replace_regex tr pre suf rep ?rest))"
        by (simp add: fx(3))
      from less.hyps [OF shorter this] have "sublist q (X @ rep @ map tr ?rest)" by simp
      from swap [OF g0(1) this] show ?thesis by (simp only: Cons g0(2)) simp
    qed
  qed
qed

lemma regex_keeps_literal:
  assumes fl: "folds_letters tr"
    and fx: "map tr pre = pre" "map tr suf = suf" "map tr rep = rep"
    and sh: "pre = w @ [qc]" "rep = w @ [d] @ suf"
    and k: "\<not> sublist q rep" "\<not> sublist rep q" "ends_ok w rep q" "starts_ok suf q rep"
    and occ: "sublist q (X @ map tr (replace_regex tr pre suf rep s))"
  shows "sublist q (X @ map tr s)"
proof (rule regex_step_back [OF fl fx _ _ occ])
  show "pre \<noteq> []" by (simp add: sh)
next
  fix g0 X Y
  assume "gap g0" and o: "sublist q (X @ rep @ Y)"
  show "sublist q (X @ (pre @ g0 @ suf) @ Y)"
  proof (rule swap_back [OF o k(1,2)])
    fix R1 R2 q1
    assume "rep = R1 @ R2" "R1 \<noteq> []" "q = q1 @ R1"
    then have "prefix R1 w" using k(3) by (auto intro: ends_okD)
    then show "prefix R1 (pre @ g0 @ suf)" by (simp add: sh)
  next
    fix R1 R2 q2
    assume "rep = R1 @ R2" "R2 \<noteq> []" "q = R2 @ q2"
    then have "suffix R2 suf" using k(4) by (auto intro: starts_okD)
    then show "suffix R2 (pre @ g0 @ suf)" by (auto simp: suffix_def)
  qed
qed

lemma regex_keeps_regex:
  assumes fl: "folds_letters tr"
    and fx: "map tr pre = pre" "map tr suf = suf" "map tr rep = rep"
    and sh: "pre = w @ [qc]" "rep = w @ [d] @ suf" "word w" "word suf"
    and ch: "\<not> is_lower qc" "\<not> is_lower d" "d \<noteq> qc"
    and q: "word w1" "word s1"
    and occ: "gapped (w1 @ [qc]) s1 (X @ map tr (replace_regex tr pre suf rep s))"
  shows "gapped (w1 @ [qc]) s1 (X @ map tr s)"
proof -
  from occ obtain g where
    g: "gap g" "sublist ((w1 @ [qc]) @ g @ s1) (X @ map tr (replace_regex tr pre suf rep s))"
    unfolding gapped_def by blast
  have lows: "list_all is_lower s1" using q(2) by (simp add: word_def)
  have "sublist ((w1 @ [qc]) @ g @ s1) (X @ map tr s)"
  proof (rule regex_step_back [OF fl fx _ _ g(2)])
    show "pre \<noteq> []" by (simp add: sh)
  next
    fix g0 X Y
    assume "gap g0" and o: "sublist ((w1 @ [qc]) @ g @ s1) (X @ rep @ Y)"
    from o have "sublist (w1 @ [qc] @ g @ s1) (X @ (w @ [d] @ suf) @ Y)" by (simp add: sh)
    from gapped_swap [OF sh(3,4) q(1) lows g(1) ch this, of "[qc] @ g0"]
    show "sublist ((w1 @ [qc]) @ g @ s1) (X @ (pre @ g0 @ suf) @ Y)" by (simp add: sh)
  qed
  with g(1) show ?thesis unfolding gapped_def by blast
qed

lemma regex_gone_gen:
  assumes fl: "folds_letters tr"
    and fx: "map tr pre = pre" "map tr suf = suf" "map tr rep = rep"
    and sh: "pre = w @ [qc]" "rep = w @ [d] @ suf" "word w" "word suf"
    and ch: "\<not> is_lower qc" "\<not> is_lower d" "d \<noteq> qc"
    and ns: "never_starts w suf"
  shows "no_start pre suf X (map tr s) \<Longrightarrow>
         \<not> gapped pre suf (X @ map tr (replace_regex tr pre suf rep s))"
proof (induction "length s" arbitrary: s X rule: less_induct)
  case less
  have ne: "pre \<noteq> []" by (simp add: sh)
  show ?case
  proof (cases s)
    case Nil
    with less.prems no_start_end [OF ne, of suf X] show ?thesis by simp
  next
    case (Cons c cs)
    show ?thesis
    proof (cases "regex_match_at tr pre suf (c # cs)")
      case None
      then have "\<not> gapped_at pre suf (tr c # map tr cs)"
        using regex_match_at_iff [OF fl fx(1,2), of "c # cs"] by simp
      moreover from less.prems Cons have "no_start pre suf X (tr c # map tr cs)" by simp
      ultimately have "no_start pre suf (X @ [tr c]) (map tr cs)"
        by (rule no_start_advance [rotated])
      from less.hyps [OF _ this] Cons None show ?thesis by simp
    next
      case (Some n)
      from regex_match_at_len [OF fl fx(1,2) Some] obtain g0 where
        g0: "gap g0" "map tr (c # cs) = pre @ g0 @ suf @ map tr (drop n (c # cs))"
            "n = length pre + length g0 + length suf" by blast
      from g0(3) ne have n: "max 1 n = n" by (cases pre) simp_all
      let ?rest = "drop n (c # cs)"
      have shorter: "length ?rest < length s" using n Cons by (simp add: max_def split: if_splits)
      from less.prems Cons g0(2)
      have "no_start (w @ [qc]) suf X ((w @ [qc] @ g0 @ suf) @ map tr ?rest)"
        by (simp add: sh)
      from no_start_replaced [OF sh(3,4) ch ns g0(1) this]
      have "no_start pre suf (X @ rep) (map tr ?rest)" by (simp add: sh)
      from less.hyps [OF shorter this] Cons Some n show ?thesis by (simp add: fx(3))
    qed
  qed
qed

lemma regex_gone:
  assumes fl: "folds_letters tr"
    and fx: "map tr pre = pre" "map tr suf = suf" "map tr rep = rep"
    and sh: "pre = w @ [qc]" "rep = w @ [d] @ suf" "word w" "word suf"
    and ch: "\<not> is_lower qc" "\<not> is_lower d" "d \<noteq> qc"
    and ns: "never_starts w suf"
  shows "\<not> gapped pre suf (map tr (replace_regex tr pre suf rep s))"
proof -
  have "no_start pre suf [] (map tr s)" by (simp add: no_start_def)
  from regex_gone_gen [OF assms this] show ?thesis by simp
qed

lemma regexes_sound:
  assumes fl: "folds_letters tr"
    and live: "\<forall>q\<in>set live. q \<noteq> [] \<and> map tr q = q \<and> \<not> occurs tr q t"
  shows "list_all (regex_ok live) rs \<Longrightarrow> list_all (fixes_regex tr) rs \<Longrightarrow>
         (\<forall>q\<in>set live. \<not> occurs tr q (foldl (apply_regex tr) t rs))
         \<and> (\<forall>r\<in>set rs. \<not> regex_occurs tr (fst r) (fst (snd r)) (foldl (apply_regex tr) t rs))"
proof (induction rs rule: rev_induct)
  case Nil
  with live show ?case by simp
next
  case (snoc r rs)
  obtain pre suf rep where r: "r = (pre, suf, rep)" by (cases r)
  define w where "w = butlast pre"
  let ?t = "foldl (apply_regex tr) t rs"
  let ?u = "replace_regex tr pre suf rep ?t"
  from snoc.prems(1) have "regex_ok live (pre, suf, rep)" by (simp add: r)
  then have ok: "pre = w @ [0x22]" "rep = w @ [0x2014] @ suf" "word w" "word suf"
      "never_starts w suf"
      "list_all (\<lambda>q. \<not> sublist q rep \<and> \<not> sublist rep q \<and> ends_ok w rep q
                          \<and> starts_ok suf q rep) live"
    unfolding regex_ok_def Let_def fst_conv snd_conv w_def [symmetric] by blast+
  from snoc.prems(2) have fx: "map tr pre = pre" "map tr suf = suf" "map tr rep = rep"
    by (simp_all add: r fixes_regex_def)
  have ch: "\<not> is_lower 0x22" "\<not> is_lower 0x2014" "(0x2014::nat) \<noteq> 0x22"
    by (simp_all add: is_lower_def)
  from snoc.prems have "list_all (regex_ok live) rs" "list_all (fixes_regex tr) rs" by simp_all
  from snoc.IH [OF this] have
    IH1: "\<forall>q\<in>set live. \<not> occurs tr q ?t" and
    IH2: "\<forall>r\<in>set rs. \<not> regex_occurs tr (fst r) (fst (snd r)) ?t" by simp_all
  have ne: "pre \<noteq> []" by (simp add: ok(1))
  have new: "foldl (apply_regex tr) t (rs @ [r]) = ?u" by (simp add: apply_regex_def r)
  have a: "\<not> occurs tr q ?u" if q: "q \<in> set live" for q
  proof
    assume occ: "occurs tr q ?u"
    from q live have qq: "q \<noteq> []" "map tr q = q" by auto
    from q ok(6) have k: "\<not> sublist q rep" "\<not> sublist rep q" "ends_ok w rep q"
      "starts_ok suf q rep" by (auto simp: list_all_iff)
    from occ qq have "sublist q ([] @ map tr ?u)" using occurs_sublist [of q tr ?u] by simp
    from regex_keeps_literal [OF fl fx ok(1,2) k this] have "sublist q (map tr ?t)" by simp
    with qq have "occurs tr q ?t" using occurs_sublist [of q tr ?t] by simp
    with IH1 q show False by simp
  qed
  have b: "\<not> regex_occurs tr pre suf ?u"
    using regex_gone [OF fl fx ok(1,2,3,4) ch ok(5), of ?t]
    by (simp add: regex_occurs_iff [OF fl fx(1,2) ne])
  have c: "\<not> regex_occurs tr (fst r') (fst (snd r')) ?u" if r': "r' \<in> set rs" for r'
  proof
    obtain pre1 suf1 rep1 where r1: "r' = (pre1, suf1, rep1)" by (cases r')
    assume "regex_occurs tr (fst r') (fst (snd r')) ?u"
    then have occ: "regex_occurs tr pre1 suf1 ?u" by (simp add: r1)
    from snoc.prems(1) r' have "regex_ok live (pre1, suf1, rep1)"
      by (simp add: list_all_iff r1)
    then have ok1: "pre1 = butlast pre1 @ [0x22]" "word (butlast pre1)" "word suf1"
      unfolding regex_ok_def Let_def fst_conv snd_conv by blast+
    from snoc.prems(2) r' have "fixes_regex tr (pre1, suf1, rep1)"
      by (simp add: list_all_iff r1)
    then have fx1: "map tr pre1 = pre1" "map tr suf1 = suf1"
      by (simp_all add: fixes_regex_def)
    have ne1: "pre1 \<noteq> []" using ok1(1) by (cases pre1) auto
    from occ have "gapped pre1 suf1 ([] @ map tr ?u)"
      by (simp add: regex_occurs_iff [OF fl fx1 ne1])
    then have "gapped (butlast pre1 @ [0x22]) suf1 ([] @ map tr ?u)" using ok1(1) by simp
    from regex_keeps_regex [OF fl fx ok(1,2,3,4) ch ok1(2,3) this]
    have "gapped pre1 suf1 (map tr ?t)" using ok1(1) by simp
    then have "regex_occurs tr pre1 suf1 ?t" by (simp add: regex_occurs_iff [OF fl fx1 ne1])
    with IH2 r' show False by (auto simp: r1)
  qed
  from a b c show ?case unfolding new by (auto simp: r)
qed

subsection \<open>The table and the expressions of the package\<close>

text \<open>
  The checks, evaluated on the table of the package from its fourteenth entry on and on
  its three regular expressions; the first thirteen patterns all have a lead.
\<close>

lemmas overlap_eval =
  has_lead_def mojibake_lead_def own_ok_def keeps_def sublist_code suffix_to_prefix

lemma table_chain: "chain_ok [] (drop 13 replacements)"
  by (simp add: replacements_def overlap_eval)

lemma regexes_checked: "list_all (regex_ok live_patterns) regex_rules"
  by (simp add: regex_rules_def live_patterns_def replacements_def regex_ok_def Let_def
      em_dash_def word_def is_lower_def overlap_eval)

lemma leads_first: "list_all (\<lambda>r. has_lead (fst r)) (take 13 replacements)"
  by (simp add: replacements_def has_lead_def mojibake_lead_def)

lemma first_rule: "take 13 replacements = ([0xE2], snd (hd replacements)) # tl (take 13 replacements)"
  by (simp add: replacements_def)

lemma thirteenth_rule: "take 13 replacements = take 12 replacements @ [([0xC3], [0xC0])]"
  by (simp add: replacements_def)

lemma live_nonempty: "list_all (\<lambda>q. q \<noteq> []) live_patterns"
  by (simp add: live_patterns_def replacements_def has_lead_def mojibake_lead_def)

lemma cleared_by_first:
  assumes "list_all (\<lambda>r. clear_of tr k (snd r)) rs" "rs = ([k], rep) # rest"
  shows "clear_of tr k (foldl (apply_literal tr) x rs)"
  using assms by (simp add: apply_literal_def clear_made_literal clear_kept_table)

lemma cleared_by_last:
  assumes "list_all (\<lambda>r. clear_of tr k (snd r)) rs" "rs = front @ [([k], rep)]"
  shows "clear_of tr k (foldl (apply_literal tr) x rs)"
  using assms by (simp add: apply_literal_def clear_made_literal)

lemma list_all_take: "list_all P xs \<Longrightarrow> list_all P (take n xs)"
  by (auto simp: list_all_iff dest: in_set_takeD)

lemma list_all_drop: "list_all P xs \<Longrightarrow> list_all P (drop n xs)"
  by (auto simp: list_all_iff dest: in_set_dropD)

text \<open>
  C2. The repair is idempotent: \<open>repair (repair x) = repair x\<close> for every text \<open>x\<close>, when
  the search folds case as Emacs does by default (\<^verbatim>\<open>case-fold-search\<close> is \<^verbatim>\<open>t\<close>, and
  \<^verbatim>\<open>zotero-normalize-text-encoding\<close> does not bind it). After the first run no character
  translated as \<open>0xE2\<close> or \<open>0xC3\<close> is left, so no pattern with a lead matches, and no
  later entry of the table or regular expression has brought back a match of an earlier
  one.
\<close>

theorem repair_idempotent:
  assumes "folds_case tr"
  shows "repair tr (repair tr x) = repair tr x"
proof -
  from assms have fl: "folds_letters tr" and E: "tr 0xC2 = tr 0xE2"
    and fixR: "list_all (\<lambda>r. has_lead (fst r) \<or> fixes_rule tr r) replacements"
    and fixX: "list_all (fixes_regex tr) regex_rules"
    and clR: "list_all (\<lambda>r. clear_of_leads tr (snd r)) replacements"
    and clX: "list_all (\<lambda>r. clear_of_leads tr (snd (snd r))) regex_rules"
    unfolding folds_case_def by blast+
  define y1 where "y1 = foldl (apply_literal tr) x (take 13 replacements)"
  define y2 where "y2 = foldl (apply_literal tr) y1 (drop 13 replacements)"
  define y where "y = foldl (apply_regex tr) y2 regex_rules"
  have "foldl (apply_literal tr) x (take 13 replacements @ drop 13 replacements) = y2"
    unfolding y2_def y1_def by (rule foldl_append)
  then have y: "repair tr x = y" by (simp add: repair_def y_def)
  from clR have clE: "list_all (\<lambda>r. clear_of tr 0xE2 (snd r)) replacements"
    and clC: "list_all (\<lambda>r. clear_of tr 0xC3 (snd r)) replacements"
    by (simp_all add: clear_of_leads_def list_all_iff)
  from clX have clXE: "list_all (\<lambda>r. clear_of tr 0xE2 (snd (snd r))) regex_rules"
    and clXC: "list_all (\<lambda>r. clear_of tr 0xC3 (snd (snd r))) regex_rules"
    by (simp_all add: clear_of_leads_def list_all_iff)
  have c1: "clear_of_leads tr y1"
    unfolding clear_of_leads_def y1_def
    using cleared_by_first [OF list_all_take [OF clE] first_rule]
      cleared_by_last [OF list_all_take [OF clC] thirteenth_rule] by simp
  have c2: "clear_of_leads tr y2"
    using c1 clear_kept_table [OF list_all_drop [OF clE]] clear_kept_table [OF list_all_drop [OF clC]]
    by (simp add: clear_of_leads_def y2_def)
  have c3: "clear_of_leads tr y"
    using c2 clear_kept_regexes [OF clXE] clear_kept_regexes [OF clXC]
    by (simp add: clear_of_leads_def y_def)
  have fixD: "list_all (\<lambda>r. has_lead (fst r) \<or> (map tr (fst r) = fst r \<and> map tr (snd r) = snd r))
                (drop 13 replacements)"
    using list_all_drop [OF fixR] by (simp add: fixes_rule_def)
  have "\<forall>q\<in>set []. q \<noteq> [] \<and> map tr q = q \<and> \<not> occurs tr q y1" by simp
  from chain_sound [OF table_chain fixD E list_all_drop [OF clR] c1 this]
  have chain: "\<forall>r\<in>set (drop 13 replacements). \<not> has_lead (fst r) \<longrightarrow> \<not> occurs tr (fst r) y2"
    by (simp add: y2_def)
  have late: "r \<in> set (drop 13 replacements)"
    if "r \<in> set replacements" "\<not> has_lead (fst r)" for r
  proof -
    have "set replacements = set (take 13 replacements) \<union> set (drop 13 replacements)"
      by (metis append_take_drop_id set_append)
    with that leads_first show ?thesis by (auto simp: list_all_iff)
  qed
  have live: "\<forall>q\<in>set live_patterns. q \<noteq> [] \<and> map tr q = q \<and> \<not> occurs tr q y2"
  proof
    fix q
    assume q: "q \<in> set live_patterns"
    then obtain r where r: "r \<in> set replacements" "\<not> has_lead (fst r)" "q = fst r"
      by (auto simp: live_patterns_def)
    from q live_nonempty have "q \<noteq> []" by (simp add: list_all_iff)
    moreover from r fixR have "map tr q = q" by (auto simp: list_all_iff fixes_rule_def)
    moreover from late [OF r(1,2)] chain r(2,3) have "\<not> occurs tr q y2" by simp
    ultimately show "q \<noteq> [] \<and> map tr q = q \<and> \<not> occurs tr q y2" by simp
  qed
  from regexes_sound [OF fl live regexes_checked fixX]
  have gone: "\<forall>q\<in>set live_patterns. \<not> occurs tr q y"
    and rgone: "\<forall>r\<in>set regex_rules. \<not> regex_occurs tr (fst r) (fst (snd r)) y"
    by (simp_all add: y_def)
  have "\<not> occurs tr (fst r) y" if r: "r \<in> set replacements" for r
  proof (cases "has_lead (fst r)")
    case True
    then show ?thesis by (rule lead_absent [OF _ E c3])
  next
    case False
    with r have "fst r \<in> set live_patterns" by (auto simp: live_patterns_def)
    with gone show ?thesis by simp
  qed
  then have "no_literal_match tr replacements y" by (simp add: no_literal_match_def list_all_iff)
  moreover from rgone have "no_regex_match tr y" by (simp add: no_regex_match_def list_all_iff)
  ultimately have "repair tr y = y" by (rule repair_fixpoint)
  then show ?thesis by (simp add: y)
qed

theorem repair_idempotent_witness:
  "folds_case downcase
   \<and> repair downcase [0xC2, 0xC2, 0xB0] = [0x22, 0x22, 0xB0]
   \<and> repair downcase (repair downcase [0xC2, 0xC2, 0xB0]) = repair downcase [0xC2, 0xC2, 0xB0]"
proof -
  have h: "folds_case downcase"
    by (simp add: folds_case_def folds_letters_def downcase_def replacements_def regex_rules_def
        fixes_rule_def fixes_regex_def clear_of_leads_def clear_of_def has_lead_def
        mojibake_lead_def em_dash_def)
  have r: "repair downcase [0xC2, 0xC2, 0xB0] = [0x22, 0x22, 0xB0]"
    by (simp add: repair_eval downcase_def)
  from h r repair_idempotent [OF h, of "[0xC2, 0xC2, 0xB0]"] show ?thesis by blast
qed

text \<open>
  The condition on the case table cannot be dropped. With character-exact matching
  (\<^verbatim>\<open>case-fold-search\<close> bound to \<^verbatim>\<open>nil\<close> around the call) the first entry leaves \<open>0xC2\<close>
  alone, the text \<open>0xC2 0xC2 0xB0\<close> is repaired to \<open>0xC2 0xB0\<close>, the search resuming after
  the replaced match, and a second repair turns that into \<open>0xB0\<close>.
\<close>

lemma repair_exact_matching_twice:
  "repair (\<lambda>c. c) [0xC2, 0xC2, 0xB0] = [0xC2, 0xB0]
   \<and> repair (\<lambda>c. c) (repair (\<lambda>c. c) [0xC2, 0xC2, 0xB0]) = [0xB0]"
  by (simp add: repair_eval)


section \<open>Rendering one annotation\<close>

lemma foldl_literal_Nil: "foldl (apply_literal tr) [] tbl = []"
  by (induction tbl) (simp_all add: apply_literal_def)

lemma foldl_regex_Nil: "foldl (apply_regex tr) [] rs = []"
  by (induction rs) (simp_all add: apply_regex_def)

lemma repair_Nil [simp]: "repair tr [] = []"
  by (simp add: repair_def foldl_literal_Nil foldl_regex_Nil)

lemma normalize_empty:
  "t = None \<or> t = Some [] \<Longrightarrow> \<not> non_empty (zotero_normalize_text_encoding tr t)"
  by (auto simp: non_empty_def zotero_normalize_text_encoding_def)

lemma begin_comment_not_link: "asc ''#+begin_comment'' \<noteq> org_link_line a aid"
  by (simp add: org_link_line_def)

lemma begin_comment_not_tag: "asc ''#+begin_comment'' \<notin> set (org_tag_lines tv)"
  by (simp add: org_tag_lines_def)

text \<open>
  C9. When the record carries the error marker, the output of both assemblers is the
  comment line \<^verbatim>\<open># Error: \<close> with the message, ended by a newline, and nothing else,
  whatever title, attachments and annotations the record holds.
\<close>

theorem error_marker_short_circuits:
  "zotero_format_as_org_mode P tr chapter_map_for (data\<lparr>error_marker := Some msg\<rparr>) citation_key
     = asc ''# Error: '' @ msg @ [10]
   \<and> zotero_format_as_markdown P tr chapter_map_for (data\<lparr>error_marker := Some msg\<rparr>) citation_key
     = asc ''# Error: '' @ msg @ [10]"
  by (simp add: zotero_format_as_org_mode_def zotero_format_as_markdown_def)

lemmas ts_link_eval =
  parseInt_def generateZoteroOrgLink_def example_ts_annotation_def page_number_def
  number_to_string_def int_to_string_def nat_to_string.simps js_whitespace_def is_digit_def
  hex_val_def Let_def

lemmas elisp_line_eval =
  format_single_annotation_org_def example_annotation_def or_default_def
  zotero_normalize_text_encoding_def non_empty_def org_tag_lines_def tag_names_def
  List.map_filter_def build_open_pdf_link_def page_display_def is_spine_index_def Let_def

text \<open>
  C4, as the claim states it: a highlight with empty text produces no line at all. In the
  Emacs Lisp renderer the tag line is added after the dispatch on the type, for every
  annotation: a highlight with empty text and the tag \<^verbatim>\<open>important\<close> is rendered as the
  one line \<^verbatim>\<open>:important:\<close>. The formatter of the plugin renders a highlight with empty
  text as the link line and a quote block around an empty line.
\<close>

theorem highlight_empty_text_tag_line:
  "format_single_annotation_org (\<lambda>c. c)
     (example_annotation ''highlight'' (Some []) None [asc ''important'']) (asc ''ATT001'') None
     = [asc '':important:'']
   \<and> format_single_annotation_org (\<lambda>c. c)
     (example_annotation ''highlight'' (Some []) None [asc ''important'']) (asc ''ATT001'') None
     \<noteq> []
   \<and> formatHighlight no_unsafe (example_ts_annotation ''highlight'' ''5'') (asc ''ATT001'') 1
       (asc ''application/pdf'')
     = asc ''[[zotero://open-pdf/library/items/ATT001?page=5&annotation=ANNOT001][Page 5]]:'' @ [10]
       @ asc ''#+begin_quote'' @ [10] @ [10] @ asc ''#+end_quote'' @ [10]"
proof -
  have el: "format_single_annotation_org (\<lambda>c. c)
     (example_annotation ''highlight'' (Some []) None [asc ''important'']) (asc ''ATT001'') None
     = [asc '':important:'']"
    by (simp add: elisp_line_eval)
  have ts: "formatHighlight no_unsafe (example_ts_annotation ''highlight'' ''5'') (asc ''ATT001'') 1
       (asc ''application/pdf'')
     = asc ''[[zotero://open-pdf/library/items/ATT001?page=5&annotation=ANNOT001][Page 5]]:'' @ [10]
       @ asc ''#+begin_quote'' @ [10] @ [10] @ asc ''#+end_quote'' @ [10]"
    by (simp add: formatHighlight_def formatTags_def tags_line_def js_trim_def or_default_def
        comment_paragraph_def ts_link_eval)
  from el ts show ?thesis by simp
qed

text \<open>
  C4, amended: for a highlight or underline annotation whose text is empty or absent, the
  per-annotation renderers of the Emacs Lisp package emit no link line, no quote block, no
  comment and no citation; they return nothing when the annotation has no tag to render,
  and the tag line alone otherwise. The formatter of the plugin emits the link line and
  the quote block for every highlight, around the trimmed text, empty or not.
\<close>

theorem highlight_empty_text_lines:
  assumes "annotationType a = Some (asc ''highlight'') \<or> annotationType a = Some (asc ''underline'')"
    and "annotationText a = None \<or> annotationText a = Some []"
  shows "format_single_annotation_org tr a aid ck
           = (if tag_names (tags a) = [] then []
              else [asc '':'' @ join (asc '':'') (tag_names (tags a)) @ asc '':''])
         \<and> format_single_annotation_md tr a aid ck
           = (if tag_names (tags a) = [] then []
              else [[], asc ''Tags: ''
                        @ join (asc '', '') (map (\<lambda>t. [0x60] @ t @ [0x60]) (tag_names (tags a)))])
         \<and> formatHighlight su n attachmentKey libraryID contentType
           = generateZoteroOrgLink su attachmentKey libraryID n contentType @ [10]
             @ asc ''#+begin_quote'' @ [10] @ js_trim (or_default (ann_text n) []) @ [10]
             @ asc ''#+end_quote'' @ [10]
             @ comment_paragraph (ann_comment n) @ tags_line (formatTags n)"
proof -
  have el: "format_single_annotation_org tr a aid ck
           = (if tag_names (tags a) = [] then []
              else [asc '':'' @ join (asc '':'') (tag_names (tags a)) @ asc '':''])
         \<and> format_single_annotation_md tr a aid ck
           = (if tag_names (tags a) = [] then []
              else [[], asc ''Tags: ''
                        @ join (asc '', '') (map (\<lambda>t. [0x60] @ t @ [0x60]) (tag_names (tags a)))])"
    using assms normalize_empty [OF assms(2), of tr]
    by (auto simp: format_single_annotation_org_def format_single_annotation_md_def or_default_def
        org_tag_lines_def md_tag_lines_def Let_def)
  have ts: "formatHighlight su n attachmentKey libraryID contentType
           = generateZoteroOrgLink su attachmentKey libraryID n contentType @ [10]
             @ asc ''#+begin_quote'' @ [10] @ js_trim (or_default (ann_text n) []) @ [10]
             @ asc ''#+end_quote'' @ [10]
             @ comment_paragraph (ann_comment n) @ tags_line (formatTags n)"
    by (simp add: formatHighlight_def Let_def)
  from el ts show ?thesis by blast
qed

theorem highlight_empty_text_lines_witness:
  "(annotationType (example_annotation ''underline'' None (Some (asc ''a remark'')) [])
      = Some (asc ''highlight'')
    \<or> annotationType (example_annotation ''underline'' None (Some (asc ''a remark'')) [])
      = Some (asc ''underline''))
   \<and> (annotationText (example_annotation ''underline'' None (Some (asc ''a remark'')) []) = None
    \<or> annotationText (example_annotation ''underline'' None (Some (asc ''a remark'')) []) = Some [])
   \<and> format_single_annotation_org (\<lambda>c. c)
       (example_annotation ''underline'' None (Some (asc ''a remark'')) []) (asc ''ATT001'')
       (Some (asc ''smith2023'')) = []
   \<and> format_single_annotation_md (\<lambda>c. c)
       (example_annotation ''underline'' None (Some (asc ''a remark'')) []) (asc ''ATT001'')
       (Some (asc ''smith2023'')) = []"
proof -
  let ?a = "example_annotation ''underline'' None (Some (asc ''a remark'')) []"
  have h1: "annotationType ?a = Some (asc ''highlight'') \<or> annotationType ?a = Some (asc ''underline'')"
    by (simp add: example_annotation_def)
  have h2: "annotationText ?a = None \<or> annotationText ?a = Some []"
    by (simp add: example_annotation_def)
  have t: "tag_names (tags ?a) = []"
    by (simp add: example_annotation_def tag_names_def List.map_filter_def)
  note inst = highlight_empty_text_lines [OF h1 h2, of "\<lambda>c. c" "asc ''ATT001''"
      "Some (asc ''smith2023'')"]
  have org: "format_single_annotation_org (\<lambda>c. c) ?a (asc ''ATT001'') (Some (asc ''smith2023'')) = []"
    using inst [THEN conjunct1] unfolding t by (simp only: if_True simp_thms)
  have md: "format_single_annotation_md (\<lambda>c. c) ?a (asc ''ATT001'') (Some (asc ''smith2023'')) = []"
    using inst [THEN conjunct2, THEN conjunct1] unfolding t by (simp only: if_True simp_thms)
  from h1 h2 org md show ?thesis by blast
qed

text \<open>
  C6, as the claim states it: for a note, the renderer that the chapter-aware assembly
  calls always emits the comment block, and the simple per-item renderer omits it when the
  comment is empty. In the code it is the other way round. The renderer that the
  chapter-aware assemblers call, \<^verbatim>\<open>zotero--format-single-annotation-org\<close>, renders a note
  with an empty comment as the link line alone; the per-annotation formatter of the plugin,
  \<^verbatim>\<open>formatNote\<close>, which knows no chapters, renders it as the link line and a comment block
  around an empty line.
\<close>

theorem note_empty_comment_renderers:
  "format_single_annotation_org (\<lambda>c. c) (example_annotation ''note'' None (Some []) [])
       (asc ''ATT001'') None
     = [asc ''[[zotero://open-pdf/library/items/ATT001?page=5&annotation=ANN001][p. 5]]:'']
   \<and> asc ''#+begin_comment''
       \<notin> set (format_single_annotation_org (\<lambda>c. c) (example_annotation ''note'' None (Some []) [])
                (asc ''ATT001'') None)
   \<and> formatNote no_unsafe (example_ts_annotation ''note'' ''5'') (asc ''ATT001'') 1
       (asc ''application/pdf'')
     = asc ''[[zotero://open-pdf/library/items/ATT001?page=5&annotation=ANNOT001][Page 5]]:'' @ [10]
       @ asc ''#+begin_comment'' @ [10] @ [10] @ asc ''#+end_comment'' @ [10]"
proof -
  have el: "format_single_annotation_org (\<lambda>c. c) (example_annotation ''note'' None (Some []) [])
       (asc ''ATT001'') None
     = [asc ''[[zotero://open-pdf/library/items/ATT001?page=5&annotation=ANN001][p. 5]]:'']"
    by (simp add: elisp_line_eval)
  have no_block: "asc ''#+begin_comment''
       \<notin> set (format_single_annotation_org (\<lambda>c. c) (example_annotation ''note'' None (Some []) [])
                (asc ''ATT001'') None)"
    unfolding el by simp
  have ts: "formatNote no_unsafe (example_ts_annotation ''note'' ''5'') (asc ''ATT001'') 1
       (asc ''application/pdf'')
     = asc ''[[zotero://open-pdf/library/items/ATT001?page=5&annotation=ANNOT001][Page 5]]:'' @ [10]
       @ asc ''#+begin_comment'' @ [10] @ [10] @ asc ''#+end_comment'' @ [10]"
    by (simp add: formatNote_def formatTags_def tags_line_def js_trim_def or_default_def ts_link_eval)
  from el no_block ts show ?thesis by blast
qed

text \<open>
  C6, amended. For a note annotation, the renderer that the chapter-aware assembly calls
  (\<^verbatim>\<open>zotero--format-single-annotation-org\<close>) emits the link line first and the comment
  block only when the repaired comment is not empty: with an empty or absent comment its
  lines are the link line and the tag line, and no line is \<^verbatim>\<open>#+begin_comment\<close>. The
  per-annotation formatter of the plugin (\<^verbatim>\<open>AnnotationFormatter.formatNote\<close>) emits the
  link line and then, always, the comment block around the trimmed comment, which may be
  empty.
\<close>

theorem note_comment_block:
  assumes "annotationType a = Some (asc ''note'')"
  shows "format_single_annotation_org tr a aid ck
           = org_link_line a aid
             # (if non_empty (zotero_normalize_text_encoding tr (annotationComment a))
                then [asc ''#+begin_comment'',
                      or_default (zotero_normalize_text_encoding tr (annotationComment a)) [],
                      asc ''#+end_comment'']
                else [])
             @ org_tag_lines (tags a)
         \<and> (if annotationComment a = None \<or> annotationComment a = Some []
            then format_single_annotation_org tr a aid ck = org_link_line a aid # org_tag_lines (tags a)
                 \<and> asc ''#+begin_comment'' \<notin> set (format_single_annotation_org tr a aid ck)
            else True)
         \<and> formatNote su n attachmentKey libraryID contentType
           = generateZoteroOrgLink su attachmentKey libraryID n contentType @ [10]
             @ asc ''#+begin_comment'' @ [10] @ js_trim (or_default (ann_comment n) []) @ [10]
             @ asc ''#+end_comment'' @ [10] @ tags_line (formatTags n)"
proof -
  have shape: "format_single_annotation_org tr a aid ck
           = org_link_line a aid
             # (if non_empty (zotero_normalize_text_encoding tr (annotationComment a))
                then [asc ''#+begin_comment'',
                      or_default (zotero_normalize_text_encoding tr (annotationComment a)) [],
                      asc ''#+end_comment'']
                else [])
             @ org_tag_lines (tags a)"
    using assms
    by (simp add: format_single_annotation_org_def org_link_line_def or_default_def Let_def)
  have omit: "format_single_annotation_org tr a aid ck = org_link_line a aid # org_tag_lines (tags a)
                 \<and> asc ''#+begin_comment'' \<notin> set (format_single_annotation_org tr a aid ck)"
    if "annotationComment a = None \<or> annotationComment a = Some []"
    using normalize_empty [OF that, of tr] begin_comment_not_link [of a aid]
      begin_comment_not_tag [of "tags a"]
    by (simp add: shape)
  have ts: "formatNote su n attachmentKey libraryID contentType
           = generateZoteroOrgLink su attachmentKey libraryID n contentType @ [10]
             @ asc ''#+begin_comment'' @ [10] @ js_trim (or_default (ann_comment n) []) @ [10]
             @ asc ''#+end_comment'' @ [10] @ tags_line (formatTags n)"
    by (simp add: formatNote_def Let_def)
  from shape omit ts show ?thesis by simp
qed

theorem note_comment_block_witness:
  "annotationType (example_annotation ''note'' None (Some []) []) = Some (asc ''note'')
   \<and> format_single_annotation_org (\<lambda>c. c) (example_annotation ''note'' None (Some []) [])
       (asc ''ATT001'') None
     = [asc ''[[zotero://open-pdf/library/items/ATT001?page=5&annotation=ANN001][p. 5]]:'']
   \<and> formatNote no_unsafe (example_ts_annotation ''note'' ''5'') (asc ''ATT001'') 1
       (asc ''application/pdf'')
     = asc ''[[zotero://open-pdf/library/items/ATT001?page=5&annotation=ANNOT001][Page 5]]:'' @ [10]
       @ asc ''#+begin_comment'' @ [10] @ [10] @ asc ''#+end_comment'' @ [10]"
proof -
  let ?a = "example_annotation ''note'' None (Some []) []"
  let ?n = "example_ts_annotation ''note'' ''5''"
  have h: "annotationType ?a = Some (asc ''note'')"
    by (simp add: example_annotation_def)
  have c: "annotationComment ?a = None \<or> annotationComment ?a = Some []"
    by (simp add: example_annotation_def)
  have link: "org_link_line ?a (asc ''ATT001'')
              = asc ''[[zotero://open-pdf/library/items/ATT001?page=5&annotation=ANN001][p. 5]]:''"
    by (simp add: org_link_line_def example_annotation_def or_default_def build_open_pdf_link_def
        page_display_def is_spine_index_def Let_def)
  have tg: "org_tag_lines (tags ?a) = []"
    by (simp add: example_annotation_def org_tag_lines_def tag_names_def List.map_filter_def)
  have ts_link: "generateZoteroOrgLink no_unsafe (asc ''ATT001'') 1 ?n (asc ''application/pdf'')
                 = asc ''[[zotero://open-pdf/library/items/ATT001?page=5&annotation=ANNOT001][Page 5]]:''"
    by (simp add: parseInt_def generateZoteroOrgLink_def example_ts_annotation_def page_number_def
        number_to_string_def int_to_string_def nat_to_string.simps js_whitespace_def is_digit_def
        hex_val_def Let_def)
  have ts_rest: "js_trim (or_default (ann_comment ?n) []) = [] \<and> tags_line (formatTags ?n) = []"
    by (simp add: example_ts_annotation_def or_default_def js_trim_def formatTags_def tags_line_def)
  note block = note_comment_block [OF h, of "\<lambda>c. c" "asc ''ATT001''" None no_unsafe ?n
      "asc ''ATT001''" 1 "asc ''application/pdf''"]
  from block have
    omit: "if annotationComment ?a = None \<or> annotationComment ?a = Some []
           then format_single_annotation_org (\<lambda>c. c) ?a (asc ''ATT001'') None
                  = org_link_line ?a (asc ''ATT001'') # org_tag_lines (tags ?a)
                \<and> asc ''#+begin_comment''
                    \<notin> set (format_single_annotation_org (\<lambda>c. c) ?a (asc ''ATT001'') None)
           else True"
    by (rule conjunct1 [OF conjunct2])
  from block have
    ts: "formatNote no_unsafe ?n (asc ''ATT001'') 1 (asc ''application/pdf'')
          = generateZoteroOrgLink no_unsafe (asc ''ATT001'') 1 ?n (asc ''application/pdf'') @ [10]
            @ asc ''#+begin_comment'' @ [10] @ js_trim (or_default (ann_comment ?n) []) @ [10]
            @ asc ''#+end_comment'' @ [10] @ tags_line (formatTags ?n)"
    by (rule conjunct2 [OF conjunct2])
  from omit have
    el: "format_single_annotation_org (\<lambda>c. c) ?a (asc ''ATT001'') None
          = org_link_line ?a (asc ''ATT001'') # org_tag_lines (tags ?a)"
    unfolding if_P [OF c] by (rule conjunct1)
  have el': "format_single_annotation_org (\<lambda>c. c) ?a (asc ''ATT001'') None
          = [asc ''[[zotero://open-pdf/library/items/ATT001?page=5&annotation=ANN001][p. 5]]:'']"
    unfolding el link tg ..
  have ts': "formatNote no_unsafe ?n (asc ''ATT001'') 1 (asc ''application/pdf'')
     = asc ''[[zotero://open-pdf/library/items/ATT001?page=5&annotation=ANNOT001][Page 5]]:'' @ [10]
       @ asc ''#+begin_comment'' @ [10] @ [10] @ asc ''#+end_comment'' @ [10]"
    unfolding ts ts_link using ts_rest by simp
  from h el' ts' show ?thesis by blast
qed

section \<open>Links and tags of the plugin\<close>

text \<open>
  C7, as the claim states it: for a content type other than EPUB the page of the link is
  the integer parsed from the page label, and 1 when parsing fails. The label \<^verbatim>\<open>"0"\<close>
  parses, to 0, and the link carries page 1.
\<close>

theorem pdf_link_page_zero:
  "parseInt (asc ''0'') = Num 0
   \<and> generateZoteroOrgLink no_unsafe (asc ''ATTACH01'') 1 (example_ts_annotation ''highlight'' ''0'')
       (asc ''application/pdf'')
     = asc ''[[zotero://open-pdf/library/items/ATTACH01?page=1&annotation=ANNOT001][Page 1]]:''"
  by (simp add: parseInt_def generateZoteroOrgLink_def example_ts_annotation_def page_number_def
      number_to_string_def int_to_string_def nat_to_string.simps js_whitespace_def is_digit_def
      hex_val_def Let_def)

text \<open>
  C7, amended. For the EPUB content type the link opens \<^verbatim>\<open>zotero://open-epub\<close>, its only
  query parameter is the annotation key, and its display label is the page label as it is,
  or \<^verbatim>\<open>Location\<close> when the label is empty. For every other content type the link opens
  \<^verbatim>\<open>zotero://open-pdf\<close> with the page as query parameter and the display label
  \<^verbatim>\<open>Page n\<close>, where \<open>n\<close> is the integer parsed from the page label, and 1 when parsing fails
  or gives 0.
\<close>

theorem zotero_org_link_shape:
  "generateZoteroOrgLink su att lib n ct
     = (if ct = asc ''application/epub+zip''
        then asc ''[[zotero://open-epub/'' @ library_path su lib @ asc ''/items/'' @ att
             @ asc ''?annotation='' @ ann_key n @ asc '']['' 
             @ (if ann_page_label n = [] then asc ''Location'' else ann_page_label n) @ asc '']]:''
        else asc ''[[zotero://open-pdf/'' @ library_path su lib @ asc ''/items/'' @ att
             @ asc ''?page='' @ number_to_string su (page_number (ann_page_label n))
             @ asc ''&annotation='' @ ann_key n
             @ asc ''][Page '' @ number_to_string su (page_number (ann_page_label n)) @ asc '']]:'')
   \<and> page_number l = (case parseInt l of NaN \<Rightarrow> 1 | Num k \<Rightarrow> if k = 0 then 1 else k)
   \<and> generateZoteroOrgLink su (asc ''ATTACH01'') 1 (example_ts_annotation ''highlight'' ''Chapter 3'')
       (asc ''application/epub+zip'')
     = asc ''[[zotero://open-epub/library/items/ATTACH01?annotation=ANNOT001][Chapter 3]]:''
   \<and> generateZoteroOrgLink su (asc ''ATTACH01'') 1 (example_ts_annotation ''highlight'' ''10'')
       (asc ''application/pdf'')
     = asc ''[[zotero://open-pdf/library/items/ATTACH01?page=10&annotation=ANNOT001][Page 10]]:''
   \<and> generateZoteroOrgLink su (asc ''ATTACH01'') 1 (example_ts_annotation ''highlight'' ''iv'')
       (asc ''application/pdf'')
     = asc ''[[zotero://open-pdf/library/items/ATTACH01?page=1&annotation=ANNOT001][Page 1]]:''"
proof -
  have a: "generateZoteroOrgLink su att lib n ct
     = (if ct = asc ''application/epub+zip''
        then asc ''[[zotero://open-epub/'' @ library_path su lib @ asc ''/items/'' @ att
             @ asc ''?annotation='' @ ann_key n @ asc '']['' 
             @ (if ann_page_label n = [] then asc ''Location'' else ann_page_label n) @ asc '']]:''
        else asc ''[[zotero://open-pdf/'' @ library_path su lib @ asc ''/items/'' @ att
             @ asc ''?page='' @ number_to_string su (page_number (ann_page_label n))
             @ asc ''&annotation='' @ ann_key n
             @ asc ''][Page '' @ number_to_string su (page_number (ann_page_label n)) @ asc '']]:'')"
    by (simp add: generateZoteroOrgLink_def library_path_def Let_def)
  have b: "page_number l = (case parseInt l of NaN \<Rightarrow> 1 | Num k \<Rightarrow> if k = 0 then 1 else k)"
    by (simp add: page_number_def)
  have c: "generateZoteroOrgLink su (asc ''ATTACH01'') 1 (example_ts_annotation ''highlight'' ''Chapter 3'')
       (asc ''application/epub+zip'')
     = asc ''[[zotero://open-epub/library/items/ATTACH01?annotation=ANNOT001][Chapter 3]]:''"
    by (simp add: generateZoteroOrgLink_def example_ts_annotation_def Let_def)
  have d: "generateZoteroOrgLink su (asc ''ATTACH01'') 1 (example_ts_annotation ''highlight'' ''10'')
       (asc ''application/pdf'')
     = asc ''[[zotero://open-pdf/library/items/ATTACH01?page=10&annotation=ANNOT001][Page 10]]:''"
    by (simp add: parseInt_def generateZoteroOrgLink_def example_ts_annotation_def page_number_def
      number_to_string_def int_to_string_def nat_to_string.simps js_whitespace_def is_digit_def
      hex_val_def Let_def)
  have e: "generateZoteroOrgLink su (asc ''ATTACH01'') 1 (example_ts_annotation ''highlight'' ''iv'')
       (asc ''application/pdf'')
     = asc ''[[zotero://open-pdf/library/items/ATTACH01?page=1&annotation=ANNOT001][Page 1]]:''"
    by (simp add: parseInt_def generateZoteroOrgLink_def example_ts_annotation_def page_number_def
      number_to_string_def int_to_string_def nat_to_string.simps js_whitespace_def is_digit_def
      hex_val_def Let_def)
  from a b c d e show ?thesis by blast
qed

text \<open>
  C8, as the claim states it: no white space and no colon inside a tag token, in both
  syntaxes. The Emacs Lisp renderers join the tag names as they are: the tag
  \<^verbatim>\<open>review later\<close> keeps its space between the backticks of the markdown line and between
  the colons of the org line.
\<close>

theorem elisp_tag_tokens_raw:
  "tag_names (Tag_list [Some (asc ''review later'')]) = [asc ''review later'']
   \<and> md_tag_lines (Tag_list [Some (asc ''review later'')])
     = [[], asc ''Tags: '' @ [0x60] @ asc ''review later'' @ [0x60]]
   \<and> org_tag_lines (Tag_list [Some (asc ''review later'')]) = [asc '':review later:'']
   \<and> \<not> list_all (\<lambda>c. \<not> js_whitespace c \<and> c \<noteq> 58) (asc ''review later'')"
  by (simp add: md_tag_lines_def org_tag_lines_def tag_names_def List.map_filter_def
      js_whitespace_def)

text \<open>
  C8, amended. Every tag token of the org decoration of the plugin (\<^verbatim>\<open>formatTags\<close>) is
  free of white space and of colons: each run of white space has become one underscore
  and each colon a hyphen. The markdown decoration of the Emacs Lisp package puts every
  tag, as it is, between backticks.
\<close>

lemma underscore_runs_clean: "list_all (\<lambda>c. \<not> js_whitespace c) (underscore_runs t)"
  by (induction t rule: underscore_runs.induct) (auto simp: js_whitespace_def)


theorem org_tag_token_clean:
  "list_all (\<lambda>c. \<not> js_whitespace c \<and> c \<noteq> 58) (tag_token t)
   \<and> tag_token (asc ''review later'') = asc ''review_later''
   \<and> tag_token (asc ''a:b'') = asc ''a-b''
   \<and> md_tag_lines (Tag_list [Some t]) = [[], asc ''Tags: '' @ [0x60] @ t @ [0x60]]"
proof -
  have hyphen: "\<not> js_whitespace 45"
    by (simp add: js_whitespace_def)
  have "list_all (\<lambda>c. \<not> js_whitespace c \<and> c \<noteq> 58) (tag_token t)"
    using underscore_runs_clean [of t] hyphen
    by (auto simp: tag_token_def colons_to_hyphens_def list_all_iff)
  moreover have "tag_token (asc ''review later'') = asc ''review_later''"
    by (simp add: tag_token_def colons_to_hyphens_def js_whitespace_def)
  moreover have "tag_token (asc ''a:b'') = asc ''a-b''"
    by (simp add: tag_token_def colons_to_hyphens_def js_whitespace_def)
  moreover have "md_tag_lines (Tag_list [Some t]) = [[], asc ''Tags: '' @ [0x60] @ t @ [0x60]]"
    by (simp add: md_tag_lines_def tag_names_def List.map_filter_def)
  ultimately show ?thesis by blast
qed

end
